theory Spec2Isabelle
  imports Complex_Main
begin

section \<open>Strings and the string primitives the exporters use\<close>

text \<open>
  A JavaScript string is modelled as a \<open>string\<close>, a list of characters with codes
  0..255 (the Latin-1 range of the code units). The character classes below are the
  ECMAScript ones restricted to that range: \<open>LineTerminator\<close> is LF and CR,
  \<open>WhiteSpace\<close> plus \<open>LineTerminator\<close> (what \<open>\s\<close> and \<open>trim\<close> use) is
  TAB, LF, VT, FF, CR, SPACE and NBSP.
\<close>

definition isLineTerminator :: "char \<Rightarrow> bool" where
  "isLineTerminator c = (c = CHR 0x0A \<or> c = CHR 0x0D)"

definition isWhiteSpace :: "char \<Rightarrow> bool" where
  "isWhiteSpace c =
     (c = CHR 0x09 \<or> c = CHR 0x0A \<or> c = CHR 0x0B \<or> c = CHR 0x0C \<or> c = CHR 0x0D
      \<or> c = CHR 0x20 \<or> c = CHR 0xA0)"

text \<open>\<open>s.trim()\<close>\<close>

definition trim :: "string \<Rightarrow> string" where
  "trim s = rev (dropWhile isWhiteSpace (rev (dropWhile isWhiteSpace s)))"

text \<open>\<open>s.startsWith(p)\<close>\<close>

definition startsWith :: "string \<Rightarrow> string \<Rightarrow> bool" where
  "startsWith s p = (take (length p) s = p)"

text \<open>
  \<open>s.split(sep)\<close> for a separator of one character: always at least one piece; the
  separators are dropped.
\<close>

fun split_char :: "char \<Rightarrow> string \<Rightarrow> string list" where
  "split_char sep [] = [[]]"
| "split_char sep (c # cs) =
     (if c = sep then [] # split_char sep cs
      else (case split_char sep cs of
              [] \<Rightarrow> [[c]]
            | l # ls \<Rightarrow> (c # l) # ls))"

text \<open>
  \<open>s.toLowerCase()\<close> on the modelled range: the letters A-Z and the Latin-1 capitals
  (codes 192 to 222 except the multiplication sign, 215) move up by 32.
\<close>

definition toLowerCase_char :: "char \<Rightarrow> char" where
  "toLowerCase_char c =
     (let n = (of_char c :: nat)
      in if (65 \<le> n \<and> n \<le> 90) \<or> (192 \<le> n \<and> n \<le> 222 \<and> n \<noteq> 215)
         then char_of (n + 32) else c)"

definition toLowerCase :: "string \<Rightarrow> string" where
  "toLowerCase s = map toLowerCase_char s"

section \<open>The regular expressions of the inline parser\<close>

text \<open>
  The result of \<open>String.prototype.match\<close> with a non-global regular expression:
  \<open>m.index\<close>, \<open>m[0]\<close> and \<open>m[1]\<close>.
\<close>

record regmatch =
  m_index :: nat
  m_all :: string
  m_group1 :: string

text \<open>
  \<open>.*?\<close> followed by \<open>\*\*\<close>: the lazy quantifier takes the fewest characters (none of
  them a line terminator) after which two asterisks follow. The result is what the dot
  consumed.
\<close>

fun lazy_to_bold_close :: "string \<Rightarrow> string option" where
  "lazy_to_bold_close [] = None"
| "lazy_to_bold_close (c # cs) =
     (if startsWith (c # cs) ''**'' then Some []
      else if isLineTerminator c then None
      else map_option ((#) c) (lazy_to_bold_close cs))"

text \<open>
  \<open>/\*\*(.+?)\*\*/\<close> tried at the start of \<open>s\<close>; the result is group 1. The first
  character of the group is taken by the mandatory iteration of \<open>.+?\<close>.
\<close>

definition bold_at :: "string \<Rightarrow> string option" where
  "bold_at s =
     (if startsWith s ''**'' then
        (case drop 2 s of
           [] \<Rightarrow> None
         | c # cs \<Rightarrow>
             if isLineTerminator c then None
             else map_option ((#) c) (lazy_to_bold_close cs))
      else None)"

text \<open>The leftmost position where the pattern matches; \<open>i\<close> is the index of the head of the list.\<close>

fun find_bold :: "nat \<Rightarrow> string \<Rightarrow> regmatch option" where
  "find_bold i [] = None"
| "find_bold i (c # cs) =
     (case bold_at (c # cs) of
        Some g \<Rightarrow> Some \<lparr>m_index = i, m_all = ''**'' @ g @ ''**'', m_group1 = g\<rparr>
      | None \<Rightarrow> find_bold (Suc i) cs)"

text \<open>\<open>remaining.match(/\*\*(.+?)\*\*/)\<close>\<close>

definition boldMatch :: "string \<Rightarrow> regmatch option" where
  "boldMatch remaining = find_bold 0 remaining"

text \<open>
  \<open>.*?\<close> followed by \<open>(?<!\*)\*(?!\*)\<close>: \<open>p\<close> is the character just before the
  current position. The closing asterisk must not follow an asterisk and must not be
  followed by one.
\<close>

fun lazy_to_italic_close :: "char \<Rightarrow> string \<Rightarrow> string option" where
  "lazy_to_italic_close p [] = None"
| "lazy_to_italic_close p (c # cs) =
     (if p \<noteq> CHR ''*'' \<and> c = CHR ''*'' \<and> \<not> startsWith cs ''*'' then Some []
      else if isLineTerminator c then None
      else map_option ((#) c) (lazy_to_italic_close c cs))"

text \<open>
  \<open>/(?<!\*)\*(?!\*)(.+?)(?<!\*)\*(?!\*)/\<close> tried at the start of \<open>s\<close>, where
  \<open>prev\<close> is the character before that position (\<open>None\<close> at index 0 of the
  searched string).
\<close>

definition italic_at :: "char option \<Rightarrow> string \<Rightarrow> string option" where
  "italic_at prev s =
     (case s of
        [] \<Rightarrow> None
      | a # r \<Rightarrow>
          if prev = Some (CHR ''*'') \<or> a \<noteq> CHR ''*'' \<or> startsWith r ''*'' then None
          else (case r of
                  [] \<Rightarrow> None
                | c # cs \<Rightarrow>
                    if isLineTerminator c then None
                    else map_option ((#) c) (lazy_to_italic_close c cs)))"

fun find_italic :: "nat \<Rightarrow> char option \<Rightarrow> string \<Rightarrow> regmatch option" where
  "find_italic i prev [] = None"
| "find_italic i prev (c # cs) =
     (case italic_at prev (c # cs) of
        Some g \<Rightarrow> Some \<lparr>m_index = i, m_all = ''*'' @ g @ ''*'', m_group1 = g\<rparr>
      | None \<Rightarrow> find_italic (Suc i) (Some c) cs)"

text \<open>\<open>remaining.match(/(?<!\*)\*(?!\*)(.+?)(?<!\*)\*(?!\*)/)\<close>\<close>

definition italicMatch :: "string \<Rightarrow> regmatch option" where
  "italicMatch remaining = find_italic 0 None remaining"

text \<open>
  The choice of \<open>nextMatch\<close> and \<open>isBold\<close>:
  \<open>if (boldMatch && (!italicMatch || boldMatch.index <= italicMatch.index))\<close> takes
  the bold match, \<open>else if (italicMatch)\<close> the italic one, and otherwise
  \<open>nextMatch\<close> stays \<open>null\<close>.
\<close>

definition chooseMatch :: "regmatch option \<Rightarrow> regmatch option \<Rightarrow> regmatch option \<times> bool" where
  "chooseMatch boldM italicM =
     (case boldM of
        Some b \<Rightarrow>
          (case italicM of
             None \<Rightarrow> (Some b, True)
           | Some i \<Rightarrow> if m_index b \<le> m_index i then (Some b, True) else (Some i, False))
      | None \<Rightarrow>
          (case italicM of
             Some i \<Rightarrow> (Some i, False)
           | None \<Rightarrow> (None, False)))"

section \<open>The inline parsers of the two exporters\<close>

record segment =
  seg_text :: string
  seg_bold :: bool
  seg_italic :: bool

text \<open>
  The segments of \<open>PDFExporter.parseInlineFormatting\<close> are object literals
  \<open>{ text }\<close>, \<open>{ text, bold: true }\<close> and \<open>{ text, italic: true }\<close>; an absent
  optional flag is modelled as \<open>False\<close> (the renderer only tests the flags for truth).
\<close>

definition plainSeg :: "string \<Rightarrow> segment" where
  "plainSeg t = \<lparr>seg_text = t, seg_bold = False, seg_italic = False\<rparr>"

definition boldSeg :: "string \<Rightarrow> segment" where
  "boldSeg t = \<lparr>seg_text = t, seg_bold = True, seg_italic = False\<rparr>"

definition italicSeg :: "string \<Rightarrow> segment" where
  "italicSeg t = \<lparr>seg_text = t, seg_bold = False, seg_italic = True\<rparr>"

text \<open>
  \<open>PDFExporter.parseInlineFormatting\<close>: the loop, with the array \<open>segments\<close> it pushes
  to and the string \<open>remaining\<close> it shortens.
\<close>

function pdf_parse_loop :: "segment list \<Rightarrow> string \<Rightarrow> segment list" where
  "pdf_parse_loop segments remaining =
     (if length remaining > 0 then
        (case chooseMatch (boldMatch remaining) (italicMatch remaining) of
           (Some nextMatch, isBold) \<Rightarrow>
             if m_group1 nextMatch \<noteq> [] then
               pdf_parse_loop
                 ((if m_index nextMatch > 0
                   then segments @ [plainSeg (take (m_index nextMatch) remaining)]
                   else segments)
                  @ [if isBold then boldSeg (m_group1 nextMatch)
                     else italicSeg (m_group1 nextMatch)])
                 (drop (m_index nextMatch + length (m_all nextMatch)) remaining)
             else segments @ [plainSeg remaining]
         | (None, isBold) \<Rightarrow> segments @ [plainSeg remaining])
      else segments)"
  by pat_completeness auto

definition pdf_parseInlineFormatting :: "string \<Rightarrow> segment list" where
  "pdf_parseInlineFormatting text = pdf_parse_loop [] text"

text \<open>
  \<open>DOCXExporter.parseInlineFormatting\<close> builds \<open>TextRun\<close> objects from the options
  \<open>{ text }\<close>, \<open>{ text, bold: true }\<close> and \<open>{ text, italics: true }\<close>.
\<close>

record textRun =
  run_text :: string
  run_bold :: bool
  run_italics :: bool

definition plainRun :: "string \<Rightarrow> textRun" where
  "plainRun t = \<lparr>run_text = t, run_bold = False, run_italics = False\<rparr>"

definition boldRun :: "string \<Rightarrow> textRun" where
  "boldRun t = \<lparr>run_text = t, run_bold = True, run_italics = False\<rparr>"

definition italicsRun :: "string \<Rightarrow> textRun" where
  "italicsRun t = \<lparr>run_text = t, run_bold = False, run_italics = True\<rparr>"

function docx_parse_loop :: "textRun list \<Rightarrow> string \<Rightarrow> textRun list" where
  "docx_parse_loop runs remaining =
     (if length remaining > 0 then
        (case chooseMatch (boldMatch remaining) (italicMatch remaining) of
           (Some nextMatch, isBold) \<Rightarrow>
             if m_group1 nextMatch \<noteq> [] then
               docx_parse_loop
                 ((if m_index nextMatch > 0
                   then runs @ [plainRun (take (m_index nextMatch) remaining)]
                   else runs)
                  @ [if isBold then boldRun (m_group1 nextMatch)
                     else italicsRun (m_group1 nextMatch)])
                 (drop (m_index nextMatch + length (m_all nextMatch)) remaining)
             else runs @ [plainRun remaining]
         | (None, isBold) \<Rightarrow> runs @ [plainRun remaining])
      else runs)"
  by pat_completeness auto

text \<open>The last line: \<open>return runs.length > 0 ? runs : [new TextRun({ text: '' })]\<close>.\<close>

definition docx_parseInlineFormatting :: "string \<Rightarrow> textRun list" where
  "docx_parseInlineFormatting text =
     (let runs = docx_parse_loop [] text
      in if length runs > 0 then runs else [plainRun []])"

section \<open>The global replacements\<close>

text \<open>
  \<open>/\*\*(.*?)\*\*/\<close> tried at the start of \<open>s\<close>: group 1 and the text after the match.
\<close>

definition bold_pair_at :: "string \<Rightarrow> (string \<times> string) option" where
  "bold_pair_at s =
     (if startsWith s ''**'' then
        map_option (\<lambda>g. (g, drop (length g + 4) s)) (lazy_to_bold_close (drop 2 s))
      else None)"

text \<open>
  \<open>s.replace(/\*\*(.*?)\*\*/g, '$1')\<close>: the matches are taken left to right without
  overlap, each replaced by its group 1; a character where no match starts is copied.
\<close>

function replace_bold :: "string \<Rightarrow> string" where
  "replace_bold [] = []"
| "replace_bold (c # cs) =
     (case bold_pair_at (c # cs) of
        Some (g, rest) \<Rightarrow> g @ replace_bold rest
      | None \<Rightarrow> c # replace_bold cs)"
  by pat_completeness auto
termination
  by (relation "measure length") (auto simp: bold_pair_at_def split: if_splits)

text \<open>\<open>.*?\<close> followed by \<open>\*\<close>.\<close>

fun lazy_to_star :: "string \<Rightarrow> string option" where
  "lazy_to_star [] = None"
| "lazy_to_star (c # cs) =
     (if c = CHR ''*'' then Some []
      else if isLineTerminator c then None
      else map_option ((#) c) (lazy_to_star cs))"

text \<open>\<open>/\*(.*?)\*/\<close> tried at the start of \<open>s\<close>: group 1 and the text after the match.\<close>

definition star_pair_at :: "string \<Rightarrow> (string \<times> string) option" where
  "star_pair_at s =
     (if startsWith s ''*'' then
        map_option (\<lambda>g. (g, drop (length g + 2) s)) (lazy_to_star (drop 1 s))
      else None)"

text \<open>\<open>s.replace(/\*(.*?)\*/g, '$1')\<close>\<close>

function replace_italic :: "string \<Rightarrow> string" where
  "replace_italic [] = []"
| "replace_italic (c # cs) =
     (case star_pair_at (c # cs) of
        Some (g, rest) \<Rightarrow> g @ replace_italic rest
      | None \<Rightarrow> c # replace_italic cs)"
  by pat_completeness auto
termination
  by (relation "measure length") (auto simp: star_pair_at_def split: if_splits)

text \<open>
  \<open>#{1,2}\s+\<close> tried at the start of \<open>s\<close>: the greedy \<open>#{1,2}\<close> first takes two
  number signs and gives one back when no whitespace follows them; \<open>\s+\<close> takes the
  whole run of whitespace, line terminators included. The result is the matched text.
\<close>

definition heading_marker_at :: "string \<Rightarrow> string option" where
  "heading_marker_at s =
     (if startsWith s ''##'' \<and> takeWhile isWhiteSpace (drop 2 s) \<noteq> []
      then Some (''##'' @ takeWhile isWhiteSpace (drop 2 s))
      else if startsWith s ''#'' \<and> takeWhile isWhiteSpace (drop 1 s) \<noteq> []
      then Some (''#'' @ takeWhile isWhiteSpace (drop 1 s))
      else None)"

text \<open>
  \<open>s.replace(/^#{1,2}\s+/gm, '')\<close>: with the \<open>m\<close> flag \<open>^\<close> holds at index 0 and
  after a line terminator; \<open>bol\<close> says whether it holds at the head of the list. After a
  match the search goes on behind it, where \<open>^\<close> looks at the last matched character.
\<close>

function replace_heading_markers :: "bool \<Rightarrow> string \<Rightarrow> string" where
  "replace_heading_markers bol [] = []"
| "replace_heading_markers bol (c # cs) =
     (case (if bol then heading_marker_at (c # cs) else None) of
        Some m \<Rightarrow>
          replace_heading_markers (isLineTerminator (last m)) (drop (length m) (c # cs))
      | None \<Rightarrow> c # replace_heading_markers (isLineTerminator c) cs)"
  by pat_completeness auto
termination
  by (relation "measure (\<lambda>(bol, s). length s)")
     (auto simp: heading_marker_at_def split: if_splits)

section \<open>TXTExporter\<close>

definition stripMarkdown :: "string \<Rightarrow> string" where
  "stripMarkdown content =
     (let text = content;
          text = replace_heading_markers True text;
          text = replace_bold text;
          text = replace_italic text
      in trim text)"

section \<open>The line parsers\<close>

text \<open>\<open>PDFExporter.parseMarkdown\<close>: the body of \<open>lines.forEach\<close>, pushing to \<open>parsed\<close>.\<close>

record parsedLine =
  line_type :: string
  line_text :: string

definition pdf_parse_line :: "parsedLine list \<Rightarrow> string \<Rightarrow> parsedLine list" where
  "pdf_parse_line parsed line =
     (let trimmed = trim line
      in if trimmed = [] then
           parsed @ [\<lparr>line_type = ''empty'', line_text = []\<rparr>]
         else if startsWith trimmed ''# '' then
           (let text = drop 2 trimmed
            in parsed @ [\<lparr>line_type = ''h1'',
                           line_text = replace_italic (replace_bold text)\<rparr>])
         else if startsWith trimmed ''## '' then
           (let text = drop 3 trimmed
            in parsed @ [\<lparr>line_type = ''h2'',
                           line_text = replace_italic (replace_bold text)\<rparr>])
         else
           parsed @ [\<lparr>line_type = ''paragraph'', line_text = trimmed\<rparr>])"

definition pdf_parseMarkdown :: "string \<Rightarrow> parsedLine list" where
  "pdf_parseMarkdown content =
     (let lines = split_char (CHR 0x0A) content
      in foldl pdf_parse_line [] lines)"

text \<open>
  \<open>DOCXExporter.parseMarkdownToDocx\<close>. A \<open>Paragraph\<close> is built from an options object
  that has \<open>text\<close>, \<open>text\<close> and \<open>heading\<close>, or \<open>children\<close>.
\<close>

datatype headingLevel = HEADING_1 | HEADING_2

record docxParagraph =
  p_text :: "string option"
  p_heading :: "headingLevel option"
  p_children :: "textRun list option"

definition docx_parse_line :: "docxParagraph list \<Rightarrow> string \<Rightarrow> docxParagraph list" where
  "docx_parse_line paragraphs line =
     (let trimmed = trim line
      in if trimmed = [] then
           paragraphs @ [\<lparr>p_text = Some [], p_heading = None, p_children = None\<rparr>]
         else if startsWith trimmed ''# '' then
           (let text = drop 2 trimmed
            in paragraphs @ [\<lparr>p_text = Some text, p_heading = Some HEADING_1,
                               p_children = None\<rparr>])
         else if startsWith trimmed ''## '' then
           (let text = drop 3 trimmed
            in paragraphs @ [\<lparr>p_text = Some text, p_heading = Some HEADING_2,
                               p_children = None\<rparr>])
         else
           (let textRuns = docx_parseInlineFormatting trimmed
            in paragraphs @ [\<lparr>p_text = None, p_heading = None,
                               p_children = Some textRuns\<rparr>]))"

definition parseMarkdownToDocx :: "string \<Rightarrow> docxParagraph list" where
  "parseMarkdownToDocx content =
     (let lines = split_char (CHR 0x0A) content
      in foldl docx_parse_line [] lines)"

section \<open>The exporter selection of main.ts\<close>

datatype exporterFactory = TXTExporterFactory | PDFExporterFactory | DOCXExporterFactory

text \<open>
  \<open>getFactory\<close> returns the factory; the second component is what it writes with
  \<open>console.error\<close>. It has no \<open>throw\<close>.
\<close>

definition getFactory :: "string \<Rightarrow> exporterFactory \<times> string list" where
  "getFactory format =
     (let key = toLowerCase format
      in if key = ''txt'' then (TXTExporterFactory, [])
         else if key = ''pdf'' then (PDFExporterFactory, [])
         else if key = ''docx'' then (DOCXExporterFactory, [])
         else (TXTExporterFactory, [''Unknown format: '' @ format @ ''. Defaulting to TXT.'']))"

section \<open>PDFExporter.export\<close>

text \<open>
  The jsPDF document is modelled by what the exporter does to it: the current font size
  and style, and the list of pages added, texts drawn (string, x, y) and files saved.
  Coordinates are rationals; the vertical positions the exporter computes are multiples
  of one half. The library's \<open>getTextWidth\<close> and the page height are parameters.
\<close>

datatype pdf_op = AddPage | Text string rat rat | Save string

record jsPDF =
  doc_fontSize :: nat
  doc_fontStyle :: string
  doc_ops :: "pdf_op list"

type_synonym textWidth = "nat \<Rightarrow> string \<Rightarrow> string \<Rightarrow> rat"

definition new_jsPDF :: jsPDF where
  "new_jsPDF = \<lparr>doc_fontSize = 16, doc_fontStyle = ''normal'', doc_ops = []\<rparr>"

definition addPage :: "jsPDF \<Rightarrow> jsPDF" where
  "addPage doc = doc\<lparr>doc_ops := doc_ops doc @ [AddPage]\<rparr>"

definition setFontSize :: "nat \<Rightarrow> jsPDF \<Rightarrow> jsPDF" where
  "setFontSize n doc = doc\<lparr>doc_fontSize := n\<rparr>"

definition setFont :: "string \<Rightarrow> jsPDF \<Rightarrow> jsPDF" where
  "setFont style doc = doc\<lparr>doc_fontStyle := style\<rparr>"

definition draw_text :: "string \<Rightarrow> rat \<Rightarrow> rat \<Rightarrow> jsPDF \<Rightarrow> jsPDF" where
  "draw_text t x y doc = doc\<lparr>doc_ops := doc_ops doc @ [Text t x y]\<rparr>"

definition getTextWidth :: "textWidth \<Rightarrow> jsPDF \<Rightarrow> string \<Rightarrow> rat" where
  "getTextWidth tw doc t = tw (doc_fontSize doc) (doc_fontStyle doc) t"

text \<open>
  The body of \<open>words.forEach((word, index) => ...)\<close>: a word is followed by a space
  unless it is the last one; the state is \<open>(currentX, currentY, doc)\<close>.
\<close>

fun render_words ::
  "textWidth \<Rightarrow> rat \<Rightarrow> rat \<Rightarrow> rat \<Rightarrow> rat \<times> rat \<times> jsPDF \<Rightarrow> string list \<Rightarrow> rat \<times> rat \<times> jsPDF" where
  "render_words tw x maxWidth lineHeight st [] = st"
| "render_words tw x maxWidth lineHeight (currentX, currentY, doc) (word # rest) =
     (let wordWithSpace = (if rest \<noteq> [] then word @ '' '' else word);
          wordWidth = getTextWidth tw doc wordWithSpace;
          wrap = (currentX + wordWidth > x + maxWidth);
          currentX = (if wrap then x else currentX);
          currentY = (if wrap then currentY + lineHeight else currentY);
          doc = draw_text wordWithSpace currentX currentY doc
      in render_words tw x maxWidth lineHeight (currentX + wordWidth, currentY, doc) rest)"

text \<open>The body of \<open>segments.forEach(segment => ...)\<close>.\<close>

definition render_segment ::
  "textWidth \<Rightarrow> rat \<Rightarrow> rat \<Rightarrow> rat \<Rightarrow> rat \<times> rat \<times> jsPDF \<Rightarrow> segment \<Rightarrow> rat \<times> rat \<times> jsPDF" where
  "render_segment tw x maxWidth lineHeight st segment =
     (case st of (currentX, currentY, doc) \<Rightarrow>
        (let doc = (if seg_bold segment then setFont ''bold'' doc
                    else if seg_italic segment then setFont ''italic'' doc
                    else setFont ''normal'' doc);
             words = split_char CHR '' '' (seg_text segment)
         in render_words tw x maxWidth lineHeight (currentX, currentY, doc) words))"

definition renderParagraphWithFormatting ::
  "textWidth \<Rightarrow> jsPDF \<Rightarrow> string \<Rightarrow> rat \<Rightarrow> rat \<Rightarrow> rat \<Rightarrow> jsPDF \<times> rat" where
  "renderParagraphWithFormatting tw doc text x y lineHeight =
     (let segments = pdf_parseInlineFormatting text;
          maxWidth = 170
      in case foldl (render_segment tw x maxWidth lineHeight) (x, y, doc) segments of
           (currentX, currentY, doc) \<Rightarrow> (doc, currentY + lineHeight))"

text \<open>
  The body of \<open>lines.forEach((line) => ...)\<close> of \<open>export\<close>, in its two parts: the
  page check, and the drawing of the line by its type. The state is \<open>(doc, yPosition)\<close>.
\<close>

definition page_check :: "rat \<Rightarrow> jsPDF \<times> rat \<Rightarrow> jsPDF \<times> rat" where
  "page_check pageHeight st =
     (case st of (doc, yPosition) \<Rightarrow>
        if yPosition > pageHeight - 20 then (addPage doc, 20) else (doc, yPosition))"

definition draw_line :: "textWidth \<Rightarrow> rat \<Rightarrow> jsPDF \<times> rat \<Rightarrow> parsedLine \<Rightarrow> jsPDF \<times> rat" where
  "draw_line tw lineHeight st line =
     (case st of (doc, yPosition) \<Rightarrow>
        if line_type line = ''h1'' then
          (draw_text (line_text line) 20 yPosition (setFont ''bold'' (setFontSize 20 doc)),
           yPosition + lineHeight * 2)
        else if line_type line = ''h2'' then
          (draw_text (line_text line) 20 yPosition (setFont ''bold'' (setFontSize 16 doc)),
           yPosition + lineHeight * (3 / 2))
        else if line_type line = ''paragraph'' then
          renderParagraphWithFormatting tw (setFontSize 12 doc) (line_text line) 20 yPosition
            lineHeight
        else if line_type line = ''empty'' then
          (doc, yPosition + lineHeight / 2)
        else (doc, yPosition))"

definition export_line :: "textWidth \<Rightarrow> rat \<Rightarrow> rat \<Rightarrow> jsPDF \<times> rat \<Rightarrow> parsedLine \<Rightarrow> jsPDF \<times> rat" where
  "export_line tw pageHeight lineHeight st line =
     draw_line tw lineHeight (page_check pageHeight st) line"

definition pdf_export :: "textWidth \<Rightarrow> rat \<Rightarrow> string \<Rightarrow> jsPDF" where
  "pdf_export tw pageHeight content =
     (let doc = new_jsPDF;
          lines = pdf_parseMarkdown content;
          yPosition = 20;
          lineHeight = 7
      in case foldl (export_line tw pageHeight lineHeight) (doc, yPosition) lines of
           (doc, yPosition) \<Rightarrow> doc\<lparr>doc_ops := doc_ops doc @ [Save ''document.pdf'']\<rparr>)"

section \<open>Auxiliary definitions for the statements\<close>

text \<open>What one iteration of the loop pushes for the match \<open>m\<close> found in \<open>s\<close>.\<close>

definition pdf_emit :: "string \<Rightarrow> regmatch \<Rightarrow> bool \<Rightarrow> segment list" where
  "pdf_emit s m b =
     (if m_index m > 0 then [plainSeg (take (m_index m) s)] else [])
     @ [if b then boldSeg (m_group1 m) else italicSeg (m_group1 m)]"

text \<open>The segments pushed by the loop of the DOCX exporter, as runs.\<close>

definition docx_emit :: "string \<Rightarrow> regmatch \<Rightarrow> bool \<Rightarrow> textRun list" where
  "docx_emit s m b =
     (if m_index m > 0 then [plainRun (take (m_index m) s)] else [])
     @ [if b then boldRun (m_group1 m) else italicsRun (m_group1 m)]"

text \<open>
  The styled segment of the specification, \<open>{ text, emphasis: None | Bold | Italic }\<close>,
  as a pair, read off a PDF segment and off a DOCX run; and the source text of such a
  pair, with its delimiters put back.
\<close>

datatype emphasis = NoEmphasis | Bold | Italic

definition segment_pair :: "segment \<Rightarrow> string \<times> emphasis" where
  "segment_pair seg =
     (seg_text seg, if seg_bold seg then Bold else if seg_italic seg then Italic else NoEmphasis)"

definition run_pair :: "textRun \<Rightarrow> string \<times> emphasis" where
  "run_pair r =
     (run_text r, if run_bold r then Bold else if run_italics r then Italic else NoEmphasis)"

definition unparse_pair :: "string \<times> emphasis \<Rightarrow> string" where
  "unparse_pair p =
     (case p of
        (t, Bold) \<Rightarrow> ''**'' @ t @ ''**''
      | (t, Italic) \<Rightarrow> ''*'' @ t @ ''*''
      | (t, NoEmphasis) \<Rightarrow> t)"

text \<open>The input with all marker characters removed.\<close>

definition remove_markers :: "string \<Rightarrow> string" where
  "remove_markers s = filter (\<lambda>c. c \<noteq> CHR ''*'') s"


text \<open>The number of marker characters in a string.\<close>

definition count_markers :: "string \<Rightarrow> nat" where
  "count_markers s = length (filter (\<lambda>c. c = CHR ''*'') s)"

text \<open>
  A case-insensitive match of a format name against a recognised name written in lower
  case ASCII letters: the strings have the same length and each character of the name is
  the letter of the recognised name or its capital, whose code is smaller by 32.
\<close>

definition same_letter :: "char \<Rightarrow> char \<Rightarrow> bool" where
  "same_letter x y = (x = y \<or> (of_char x :: nat) + 32 = of_char y)"

definition matches_ignoring_case :: "string \<Rightarrow> string \<Rightarrow> bool" where
  "matches_ignoring_case name recognised = list_all2 same_letter name recognised"

text \<open>
  The line of the specification, \<open>{ kind: Heading1 | Heading2 | Paragraph | Empty, text }\<close>:
  the kind of a trimmed line by the precedence of the classification rule, and the kind
  read off a parsed line of the PDF exporter and off a paragraph node of the DOCX exporter.
\<close>

datatype lineKind = Heading1 | Heading2 | Paragraph | Empty

definition classify_line :: "string \<Rightarrow> lineKind" where
  "classify_line trimmed =
     (if trimmed = [] then Empty
      else if startsWith trimmed ''# '' then Heading1
      else if startsWith trimmed ''## '' then Heading2
      else Paragraph)"

definition pdf_line_kind :: "parsedLine \<Rightarrow> lineKind" where
  "pdf_line_kind l =
     (if line_type l = ''h1'' then Heading1
      else if line_type l = ''h2'' then Heading2
      else if line_type l = ''paragraph'' then Paragraph
      else Empty)"

definition docx_node_kind :: "docxParagraph \<Rightarrow> lineKind" where
  "docx_node_kind p =
     (case p_heading p of
        Some HEADING_1 \<Rightarrow> Heading1
      | Some HEADING_2 \<Rightarrow> Heading2
      | None \<Rightarrow> (case p_children p of Some runs \<Rightarrow> Paragraph | None \<Rightarrow> Empty))"

text \<open>A width function for examples: two units for every character, in every font.\<close>

definition two_per_char :: textWidth where
  "two_per_char fontSize fontStyle t = 2 * of_nat (length t)"

text \<open>
  An input with flat, balanced markers, given by its pieces in order: unstyled text,
  \<open>**t**\<close> and \<open>*t*\<close>. Every piece has a non-empty text without asterisks, the text
  of a span has no line terminator, unstyled pieces are not adjacent (each is a maximal
  run), and an italic span is followed by unstyled text or by the end. The input itself
  is \<open>source_of\<close> the pieces.
\<close>

fun flat_pieces :: "(string \<times> emphasis) list \<Rightarrow> bool" where
  "flat_pieces [] = True"
| "flat_pieces ((t, e) # ps) =
     (t \<noteq> [] \<and> CHR ''*'' \<notin> set t
      \<and> (e \<noteq> NoEmphasis \<longrightarrow> \<not> list_ex isLineTerminator t)
      \<and> (case ps of
            [] \<Rightarrow> True
          | (t', e') # ps' \<Rightarrow>
              (e = NoEmphasis \<longrightarrow> e' \<noteq> NoEmphasis) \<and> (e = Italic \<longrightarrow> e' = NoEmphasis))
      \<and> flat_pieces ps)"

definition source_of :: "(string \<times> emphasis) list \<Rightarrow> string" where
  "source_of ps = concat (map unparse_pair ps)"

text \<open>
  Replacing pairs of a delimiter by the text between them, read off the words of the
  claim rather than off the regular expressions: \<open>index_of d s\<close> is the first position
  where \<open>d\<close> occurs in \<open>s\<close>; a pair opens at the first occurrence of the delimiter and
  closes at the next occurrence behind it, provided no line terminator stands in
  between; the pair is replaced by the text between its delimiters, and the search goes
  on behind the pair. Where no pair opens at an occurrence, its first character is kept
  and the search goes on behind that character.
\<close>

fun index_of :: "string \<Rightarrow> string \<Rightarrow> nat option" where
  "index_of d [] = (if d = [] then Some 0 else None)"
| "index_of d (c # cs) =
     (if startsWith (c # cs) d then Some 0 else map_option Suc (index_of d cs))"

definition pair_after :: "string \<Rightarrow> string \<Rightarrow> (string \<times> string) option" where
  "pair_after d after =
     (case index_of d after of
        None \<Rightarrow> None
      | Some j \<Rightarrow>
          if list_ex isLineTerminator (take j after) then None
          else Some (take j after, drop (j + length d) after))"

function strip_pairs :: "string \<Rightarrow> string \<Rightarrow> string" where
  "strip_pairs d s =
     (if d = [] then s
      else (case index_of d s of
              None \<Rightarrow> s
            | Some i \<Rightarrow>
                (case pair_after d (drop (i + length d) s) of
                   Some (inner, rest) \<Rightarrow> take i s @ inner @ strip_pairs d rest
                 | None \<Rightarrow> take (Suc i) s @ strip_pairs d (drop (Suc i) s))))"
  by pat_completeness auto

text \<open>
  The text of a line of the PDF exporter, from the trimmed line: for a heading, the
  remainder after the prefix with its pairs of \<open>**\<close> and then its pairs of \<open>*\<close>
  replaced by the text between them.
\<close>

definition pdf_line_text :: "string \<Rightarrow> string" where
  "pdf_line_text trimmed =
     (case classify_line trimmed of
        Empty \<Rightarrow> []
      | Heading1 \<Rightarrow> strip_pairs ''*'' (strip_pairs ''**'' (drop 2 trimmed))
      | Heading2 \<Rightarrow> strip_pairs ''*'' (strip_pairs ''**'' (drop 3 trimmed))
      | Paragraph \<Rightarrow> trimmed)"

text \<open>
  The paragraph node of the DOCX exporter for a line: it has the kind of the trimmed
  line; for an empty line it is the node with the empty text; for a paragraph it has
  runs, and these read, with the delimiters of the styled runs put back, as the trimmed
  line. The text of a heading node is left open here.
\<close>

definition docx_node_for :: "string \<Rightarrow> docxParagraph \<Rightarrow> bool" where
  "docx_node_for line node =
     (let trimmed = trim line
      in docx_node_kind node = classify_line trimmed
         \<and> (case classify_line trimmed of
               Empty \<Rightarrow> node = \<lparr>p_text = Some [], p_heading = None, p_children = None\<rparr>
             | Paragraph \<Rightarrow>
                 p_text node = None
                 \<and> (case p_children node of
                       None \<Rightarrow> False
                     | Some runs \<Rightarrow> concat (map (unparse_pair \<circ> run_pair) runs) = trimmed)
             | Heading1 \<Rightarrow> True
             | Heading2 \<Rightarrow> True))"

text \<open>
  Text that flows in rows from the vertical position \<open>y\<close>: every operation draws text,
  either on the current row or, after a wrap, at the left margin \<open>x\<close> of the next row,
  one line height lower. \<open>last_row\<close> is the row of the last text drawn.
\<close>

fun row_flow :: "rat \<Rightarrow> rat \<Rightarrow> rat \<Rightarrow> pdf_op list \<Rightarrow> bool" where
  "row_flow x lineHeight y [] = True"
| "row_flow x lineHeight y (Text t x' y' # ops) =
     ((y' = y \<or> (x' = x \<and> y' = y + lineHeight)) \<and> row_flow x lineHeight y' ops)"
| "row_flow x lineHeight y (AddPage # ops) = False"
| "row_flow x lineHeight y (Save f # ops) = False"

fun last_row :: "rat \<Rightarrow> pdf_op list \<Rightarrow> rat" where
  "last_row y [] = y"
| "last_row y (Text t x' y' # ops) = last_row y' ops"
| "last_row y (AddPage # ops) = last_row y ops"
| "last_row y (Save f # ops) = last_row y ops"

fun op_text :: "pdf_op \<Rightarrow> string" where
  "op_text (Text t x y) = t"
| "op_text AddPage = []"
| "op_text (Save f) = []"

text \<open>
  The pieces of text of a paragraph line: the words of its segments, each word but the
  last of its segment followed by a space.
\<close>

fun with_spaces :: "string list \<Rightarrow> string list" where
  "with_spaces [] = []"
| "with_spaces [w] = [w]"
| "with_spaces (w # w' # ws) = (w @ '' '') # with_spaces (w' # ws)"

definition paragraph_words :: "string \<Rightarrow> string list" where
  "paragraph_words text =
     concat (map (\<lambda>seg. with_spaces (split_char CHR '' '' (seg_text seg)))
               (pdf_parseInlineFormatting text))"

text \<open>
  What a logical line draws when its drawing starts at the cursor \<open>c\<close>: a heading draws
  its text at the left margin 20 and at \<open>c\<close>; a paragraph draws its words, in order, in
  rows that flow from \<open>c\<close> with the line height 7; an empty line draws nothing. The cursor
  behind the line follows from \<open>c\<close> and, for a paragraph, from the last row used.
\<close>

definition line_drawn :: "rat \<Rightarrow> parsedLine \<Rightarrow> pdf_op list \<Rightarrow> bool" where
  "line_drawn c line body =
     (if line_type line = ''h1'' \<or> line_type line = ''h2'' then
        body = [Text (line_text line) 20 c]
      else if line_type line = ''paragraph'' then
        row_flow 20 7 c body \<and> map op_text body = paragraph_words (line_text line)
      else body = [])"

definition line_advance :: "parsedLine \<Rightarrow> rat \<Rightarrow> pdf_op list \<Rightarrow> rat" where
  "line_advance line c body =
     (if line_type line = ''h1'' then c + 14
      else if line_type line = ''h2'' then c + 21 / 2
      else if line_type line = ''paragraph'' then last_row c body + 7
      else if line_type line = ''empty'' then c + 7 / 2
      else c)"

text \<open>
  The operations of a whole document, one block for every logical line, for the page
  height \<open>H\<close> and the cursor \<open>y\<close> before the first line. When the cursor exceeds
  \<open>H - 20\<close>, the block of the line starts with one \<open>AddPage\<close> and the line is drawn
  from the cursor 20, which must not exceed \<open>H - 20\<close> either; otherwise the block has no
  \<open>AddPage\<close> and the line is drawn from \<open>y\<close>.
\<close>

fun paged_log :: "rat \<Rightarrow> rat \<Rightarrow> parsedLine list \<Rightarrow> pdf_op list list \<Rightarrow> bool" where
  "paged_log H y [] blocks = (blocks = [])"
| "paged_log H y (line # lines) [] = False"
| "paged_log H y (line # lines) (block # blocks) =
     (if y > H - 20 then
        (case block of
           AddPage # body \<Rightarrow>
             20 \<le> H - 20 \<and> line_drawn 20 line body
             \<and> paged_log H (line_advance line 20 body) lines blocks
         | _ \<Rightarrow> False)
      else
        line_drawn y line block \<and> paged_log H (line_advance line y block) lines blocks)"

section \<open>Facts about the matchers and the loops\<close>

lemma startsWith_Nil [simp]: "startsWith s [] = True"
  by (simp add: startsWith_def)

lemma startsWith_Nil_Cons [simp]: "startsWith [] (p # ps) = False"
  by (simp add: startsWith_def)

lemma startsWith_Cons_Cons [simp]: "startsWith (c # cs) (p # ps) = (c = p \<and> startsWith cs ps)"
  by (auto simp: startsWith_def)

lemma startsWith_append: "startsWith s p = (\<exists>r. s = p @ r)"
  unfolding startsWith_def
  by (metis append_eq_conv_conj append_take_drop_id)

lemma lazy_to_bold_close_length:
  "lazy_to_bold_close s = Some g \<Longrightarrow> length g + 2 \<le> length s"
proof (induction s arbitrary: g)
  case Nil
  then show ?case by simp
next
  case (Cons c cs)
  show ?case
  proof (cases "startsWith (c # cs) ''**''")
    case True
    then obtain r where "c # cs = ''**'' @ r" by (auto simp: startsWith_append)
    with Cons.prems True show ?thesis by auto
  next
    case False
    with Cons.prems obtain g' where "lazy_to_bold_close cs = Some g'" "g = c # g'"
      by (auto split: if_splits)
    with Cons.IH [of g'] show ?thesis by simp
  qed
qed

lemma find_bold_all_length: "find_bold i s = Some m \<Longrightarrow> 4 \<le> length (m_all m)"
  by (induction s arbitrary: i) (auto split: option.splits)

lemma find_italic_all_length: "find_italic i p s = Some m \<Longrightarrow> 2 \<le> length (m_all m)"
  by (induction s arbitrary: i p) (auto split: option.splits)

lemma chooseMatch_all_length:
  assumes "chooseMatch (boldMatch s) (italicMatch s) = (Some m, b)"
  shows "2 \<le> length (m_all m)"
proof -
  from assms have "boldMatch s = Some m \<or> italicMatch s = Some m"
    by (auto simp: chooseMatch_def split: option.splits if_splits)
  then show ?thesis
    using find_bold_all_length [of 0 s m] find_italic_all_length [of 0 None s m]
    by (auto simp: boldMatch_def italicMatch_def)
qed

lemma chooseMatch_drop_shorter:
  assumes "chooseMatch (boldMatch s) (italicMatch s) = (Some m, b)" and "s \<noteq> []"
  shows "length (drop (m_index m + length (m_all m)) s) < length s"
  using chooseMatch_all_length [OF assms(1)] assms(2) by (cases s) auto

text \<open>
  Both loops terminate: every iteration that goes on shortens \<open>remaining\<close> by the
  matched text, which has at least two characters.
\<close>

termination pdf_parse_loop
proof (relation "measure (\<lambda>(segments, remaining). length remaining)", goal_cases)
  case 1
  show ?case by simp
next
  case (2 segments remaining x isBold nextMatch)
  then have "chooseMatch (boldMatch remaining) (italicMatch remaining) = (Some nextMatch, isBold)"
    by simp
  then have "length (drop (m_index nextMatch + length (m_all nextMatch)) remaining)
             < length remaining"
    using 2(1) chooseMatch_drop_shorter [of remaining nextMatch isBold] by auto
  then show ?case by simp
qed

declare pdf_parse_loop.simps [simp del]

termination docx_parse_loop
proof (relation "measure (\<lambda>(runs, remaining). length remaining)", goal_cases)
  case 1
  show ?case by simp
next
  case (2 runs remaining x isBold nextMatch)
  then have "chooseMatch (boldMatch remaining) (italicMatch remaining) = (Some nextMatch, isBold)"
    by simp
  then have "length (drop (m_index nextMatch + length (m_all nextMatch)) remaining)
             < length remaining"
    using 2(1) chooseMatch_drop_shorter [of remaining nextMatch isBold] by auto
  then show ?case by simp
qed

declare docx_parse_loop.simps [simp del]

lemma lazy_to_bold_close_split:
  "lazy_to_bold_close s = Some g \<Longrightarrow> \<exists>r. s = g @ ''**'' @ r"
proof (induction s arbitrary: g)
  case Nil
  then show ?case by simp
next
  case (Cons c cs)
  show ?case
  proof (cases "startsWith (c # cs) ''**''")
    case True
    then obtain r where "c # cs = ''**'' @ r" by (auto simp: startsWith_append)
    moreover from Cons.prems True have "g = []" by simp
    ultimately show ?thesis by simp
  next
    case False
    with Cons.prems obtain g' where g': "lazy_to_bold_close cs = Some g'" "g = c # g'"
      by (auto split: if_splits)
    from Cons.IH [OF g'(1)] obtain r where "cs = g' @ ''**'' @ r" by blast
    with g'(2) show ?thesis by simp
  qed
qed

lemma bold_at_split:
  assumes "bold_at s = Some g"
  shows "g \<noteq> [] \<and> (\<exists>r. s = ''**'' @ g @ ''**'' @ r)"
proof -
  from assms have sw: "startsWith s ''**''"
    by (auto simp: bold_at_def split: if_splits)
  then obtain t where t: "s = ''**'' @ t" by (auto simp: startsWith_append)
  with assms obtain c cs g' where
    "t = c # cs" "lazy_to_bold_close cs = Some g'" "g = c # g'"
    by (auto simp: bold_at_def split: if_splits list.splits)
  moreover from this lazy_to_bold_close_split obtain r where "cs = g' @ ''**'' @ r" by blast
  ultimately show ?thesis using t by simp
qed

lemma find_bold_split:
  "find_bold i s = Some m \<Longrightarrow>
     i \<le> m_index m \<and> m_group1 m \<noteq> [] \<and> m_all m = ''**'' @ m_group1 m @ ''**''
     \<and> (\<exists>pre r. s = pre @ m_all m @ r \<and> length pre = m_index m - i)"
proof (induction s arbitrary: i)
  case Nil
  then show ?case by simp
next
  case (Cons c cs)
  show ?case
  proof (cases "bold_at (c # cs)")
    case (Some g)
    with Cons.prems have m: "m = \<lparr>m_index = i, m_all = ''**'' @ g @ ''**'', m_group1 = g\<rparr>"
      by simp
    from bold_at_split [OF Some] obtain r where "g \<noteq> []" "c # cs = ''**'' @ g @ ''**'' @ r"
      by blast
    then have "c # cs = [] @ m_all m @ r" "length ([]::string) = m_index m - i" "g \<noteq> []"
      using m by simp_all
    then show ?thesis using m by (metis append_Nil le_refl regmatch.select_convs(1,2,3))
  next
    case None
    with Cons.prems have f: "find_bold (Suc i) cs = Some m" by simp
    from Cons.IH [OF f] obtain pre r where
      h: "Suc i \<le> m_index m" "m_group1 m \<noteq> []" "m_all m = ''**'' @ m_group1 m @ ''**''"
         "cs = pre @ m_all m @ r" "length pre = m_index m - Suc i"
      by blast
    then have "c # cs = (c # pre) @ m_all m @ r" "length (c # pre) = m_index m - i"
      by auto
    with h(1,2,3) show ?thesis by (metis Suc_leD)
  qed
qed

lemma lazy_to_italic_close_split:
  "lazy_to_italic_close p s = Some g \<Longrightarrow> \<exists>r. s = g @ ''*'' @ r"
proof (induction s arbitrary: p g)
  case Nil
  then show ?case by simp
next
  case (Cons c cs)
  show ?case
  proof (cases "p \<noteq> CHR ''*'' \<and> c = CHR ''*'' \<and> \<not> startsWith cs ''*''")
    case True
    with Cons.prems have "g = []" by simp
    with True show ?thesis by simp
  next
    case False
    with Cons.prems obtain g' where g': "lazy_to_italic_close c cs = Some g'" "g = c # g'"
      by (auto split: if_splits)
    from Cons.IH [OF g'(1)] obtain r where "cs = g' @ ''*'' @ r" by blast
    with g'(2) show ?thesis by simp
  qed
qed

lemma italic_at_split:
  assumes "italic_at prev s = Some g"
  shows "g \<noteq> [] \<and> (\<exists>r. s = ''*'' @ g @ ''*'' @ r)"
proof -
  from assms obtain c cs g' where
    "s = CHR ''*'' # c # cs" "lazy_to_italic_close c cs = Some g'" "g = c # g'"
    by (auto simp: italic_at_def split: if_splits list.splits)
  moreover from this lazy_to_italic_close_split obtain r where "cs = g' @ ''*'' @ r" by blast
  ultimately show ?thesis by simp
qed

lemma find_italic_split:
  "find_italic i prev s = Some m \<Longrightarrow>
     i \<le> m_index m \<and> m_group1 m \<noteq> [] \<and> m_all m = ''*'' @ m_group1 m @ ''*''
     \<and> (\<exists>pre r. s = pre @ m_all m @ r \<and> length pre = m_index m - i)"
proof (induction s arbitrary: i prev)
  case Nil
  then show ?case by simp
next
  case (Cons c cs)
  show ?case
  proof (cases "italic_at prev (c # cs)")
    case (Some g)
    with Cons.prems have m: "m = \<lparr>m_index = i, m_all = ''*'' @ g @ ''*'', m_group1 = g\<rparr>"
      by simp
    from italic_at_split [OF Some] obtain r where "g \<noteq> []" "c # cs = ''*'' @ g @ ''*'' @ r"
      by blast
    then have "c # cs = [] @ m_all m @ r" "length ([]::string) = m_index m - i" "g \<noteq> []"
      using m by simp_all
    then show ?thesis using m by (metis append_Nil le_refl regmatch.select_convs(1,2,3))
  next
    case None
    with Cons.prems have f: "find_italic (Suc i) (Some c) cs = Some m" by simp
    from Cons.IH [OF f] obtain pre r where
      h: "Suc i \<le> m_index m" "m_group1 m \<noteq> []" "m_all m = ''*'' @ m_group1 m @ ''*''"
         "cs = pre @ m_all m @ r" "length pre = m_index m - Suc i"
      by blast
    then have "c # cs = (c # pre) @ m_all m @ r" "length (c # pre) = m_index m - i"
      by auto
    with h(1,2,3) show ?thesis by (metis Suc_leD)
  qed
qed

text \<open>What the chosen match says about the searched string.\<close>

lemma chooseMatch_split:
  assumes "chooseMatch (boldMatch s) (italicMatch s) = (Some m, b)"
  shows "m_group1 m \<noteq> []"
    and "m_all m = (if b then ''**'' @ m_group1 m @ ''**'' else ''*'' @ m_group1 m @ ''*'')"
    and "s = take (m_index m) s @ m_all m @ drop (m_index m + length (m_all m)) s"
    and "m_index m + length (m_all m) \<le> length s"
proof -
  from assms have c: "(b \<and> boldMatch s = Some m) \<or> (\<not> b \<and> italicMatch s = Some m)"
    by (auto simp: chooseMatch_def split: option.splits if_splits)
  have g: "m_group1 m \<noteq> [] \<and>
        m_all m = (if b then ''**'' @ m_group1 m @ ''**'' else ''*'' @ m_group1 m @ ''*'')
        \<and> (\<exists>pre r. s = pre @ m_all m @ r \<and> length pre = m_index m)"
    using c find_bold_split [of 0 s m] find_italic_split [of 0 None s m]
    by (auto simp: boldMatch_def italicMatch_def)
  then obtain pre r where pr: "s = pre @ m_all m @ r" "length pre = m_index m" by blast
  show "m_group1 m \<noteq> []" using g by blast
  show "m_all m = (if b then ''**'' @ m_group1 m @ ''**'' else ''*'' @ m_group1 m @ ''*'')"
    using g by blast
  have "take (m_index m) s = pre" using pr by simp
  moreover have "drop (m_index m + length (m_all m)) s = r"
    using pr by (metis append_eq_conv_conj drop_drop add.commute)
  ultimately show "s = take (m_index m) s @ m_all m @ drop (m_index m + length (m_all m)) s"
    using pr(1) by simp
  show "m_index m + length (m_all m) \<le> length s"
    using pr by (metis length_append le_add1 add.assoc)
qed

lemma pdf_parse_loop_Nil: "pdf_parse_loop acc [] = acc"
  by (subst pdf_parse_loop.simps) simp

lemma pdf_parse_loop_None:
  assumes "s \<noteq> []" and "chooseMatch (boldMatch s) (italicMatch s) = (None, b)"
  shows "pdf_parse_loop acc s = acc @ [plainSeg s]"
  using assms by (subst pdf_parse_loop.simps) simp

lemma pdf_parse_loop_Some:
  assumes "s \<noteq> []" and "chooseMatch (boldMatch s) (italicMatch s) = (Some m, b)"
  shows "pdf_parse_loop acc s =
         pdf_parse_loop (acc @ pdf_emit s m b) (drop (m_index m + length (m_all m)) s)"
  using assms chooseMatch_split(1) [OF assms(2)]
  by (subst pdf_parse_loop.simps) (simp add: pdf_emit_def)

lemma pdf_parse_loop_acc: "pdf_parse_loop acc s = acc @ pdf_parse_loop [] s"
proof (induction s arbitrary: acc rule: length_induct)
  case (1 s)
  show ?case
  proof (cases "s = []")
    case True
    then show ?thesis by (simp add: pdf_parse_loop_Nil)
  next
    case False
    obtain mo b where c: "chooseMatch (boldMatch s) (italicMatch s) = (mo, b)"
      by (cases "chooseMatch (boldMatch s) (italicMatch s)")
    show ?thesis
    proof (cases mo)
      case None
      with c False show ?thesis by (simp add: pdf_parse_loop_None)
    next
      case (Some m)
      let ?r = "drop (m_index m + length (m_all m)) s"
      from c Some have c': "chooseMatch (boldMatch s) (italicMatch s) = (Some m, b)" by simp
      have "length ?r < length s" using chooseMatch_drop_shorter [OF c' False] .
      with 1 have ih: "\<And>acc. pdf_parse_loop acc ?r = acc @ pdf_parse_loop [] ?r" by blast
      have "pdf_parse_loop acc s = pdf_parse_loop (acc @ pdf_emit s m b) ?r"
        using pdf_parse_loop_Some [OF False c'] .
      also have "\<dots> = acc @ pdf_emit s m b @ pdf_parse_loop [] ?r"
        using ih [of "acc @ pdf_emit s m b"] by simp
      also have "\<dots> = acc @ pdf_parse_loop ([] @ pdf_emit s m b) ?r"
        using ih [of "[] @ pdf_emit s m b"] by simp
      also have "\<dots> = acc @ pdf_parse_loop [] s"
        using pdf_parse_loop_Some [OF False c', of "[]"] by simp
      finally show ?thesis .
    qed
  qed
qed

lemma docx_parse_loop_Nil: "docx_parse_loop acc [] = acc"
  by (subst docx_parse_loop.simps) simp

lemma docx_parse_loop_None:
  assumes "s \<noteq> []" and "chooseMatch (boldMatch s) (italicMatch s) = (None, b)"
  shows "docx_parse_loop acc s = acc @ [plainRun s]"
  using assms by (subst docx_parse_loop.simps) simp

lemma docx_parse_loop_Some:
  assumes "s \<noteq> []" and "chooseMatch (boldMatch s) (italicMatch s) = (Some m, b)"
  shows "docx_parse_loop acc s =
         docx_parse_loop (acc @ docx_emit s m b) (drop (m_index m + length (m_all m)) s)"
  using assms chooseMatch_split(1) [OF assms(2)]
  by (subst docx_parse_loop.simps) (simp add: docx_emit_def)

lemma emit_pairs: "map run_pair (docx_emit s m b) = map segment_pair (pdf_emit s m b)"
  by (simp add: docx_emit_def pdf_emit_def run_pair_def segment_pair_def plainRun_def
      boldRun_def italicsRun_def plainSeg_def boldSeg_def italicSeg_def)

text \<open>The two loops run in lockstep.\<close>

lemma loops_agree:
  "map run_pair runs = map segment_pair segs \<Longrightarrow>
   map run_pair (docx_parse_loop runs s) = map segment_pair (pdf_parse_loop segs s)"
proof (induction s arbitrary: runs segs rule: length_induct)
  case (1 s)
  show ?case
  proof (cases "s = []")
    case True
    with 1 show ?thesis by (simp add: pdf_parse_loop_Nil docx_parse_loop_Nil)
  next
    case False
    obtain mo b where c: "chooseMatch (boldMatch s) (italicMatch s) = (mo, b)"
      by (cases "chooseMatch (boldMatch s) (italicMatch s)")
    show ?thesis
    proof (cases mo)
      case None
      with c False 1(2) show ?thesis
        by (simp add: pdf_parse_loop_None docx_parse_loop_None run_pair_def segment_pair_def
            plainRun_def plainSeg_def)
    next
      case (Some m)
      let ?r = "drop (m_index m + length (m_all m)) s"
      from c Some have c': "chooseMatch (boldMatch s) (italicMatch s) = (Some m, b)" by simp
      have "length ?r < length s" using chooseMatch_drop_shorter [OF c' False] .
      moreover have "map run_pair (runs @ docx_emit s m b) = map segment_pair (segs @ pdf_emit s m b)"
        using 1(2) emit_pairs by simp
      ultimately have "map run_pair (docx_parse_loop (runs @ docx_emit s m b) ?r)
                     = map segment_pair (pdf_parse_loop (segs @ pdf_emit s m b) ?r)"
        using 1(1) by blast
      then show ?thesis
        using pdf_parse_loop_Some [OF False c'] docx_parse_loop_Some [OF False c'] by simp
    qed
  qed
qed

lemma pdf_parse_loop_nonempty: "s \<noteq> [] \<Longrightarrow> pdf_parse_loop [] s \<noteq> []"
proof -
  assume ne: "s \<noteq> []"
  obtain mo b where c: "chooseMatch (boldMatch s) (italicMatch s) = (mo, b)"
    by (cases "chooseMatch (boldMatch s) (italicMatch s)")
  show ?thesis
  proof (cases mo)
    case None
    with c ne show ?thesis by (simp add: pdf_parse_loop_None)
  next
    case (Some m)
    with c ne have "pdf_parse_loop [] s
        = pdf_emit s m b @ pdf_parse_loop [] (drop (m_index m + length (m_all m)) s)"
      using pdf_parse_loop_Some [of s m b "[]"] pdf_parse_loop_acc [of "pdf_emit s m b"] by simp
    then show ?thesis by (simp add: pdf_emit_def)
  qed
qed

lemma unparse_pdf_emit:
  assumes "chooseMatch (boldMatch s) (italicMatch s) = (Some m, b)"
  shows "concat (map (unparse_pair \<circ> segment_pair) (pdf_emit s m b))
         = take (m_index m) s @ m_all m"
  using chooseMatch_split(2) [OF assms]
  by (simp add: pdf_emit_def unparse_pair_def segment_pair_def plainSeg_def boldSeg_def
      italicSeg_def)

text \<open>Putting the delimiters back around every styled segment gives the input again.\<close>

lemma unparse_pdf_parse_loop:
  "concat (map (unparse_pair \<circ> segment_pair) (pdf_parse_loop [] s)) = s"
proof (induction s rule: length_induct)
  case (1 s)
  show ?case
  proof (cases "s = []")
    case True
    then show ?thesis by (simp add: pdf_parse_loop_Nil)
  next
    case False
    obtain mo b where c: "chooseMatch (boldMatch s) (italicMatch s) = (mo, b)"
      by (cases "chooseMatch (boldMatch s) (italicMatch s)")
    show ?thesis
    proof (cases mo)
      case None
      with c False show ?thesis
        by (simp add: pdf_parse_loop_None unparse_pair_def segment_pair_def plainSeg_def)
    next
      case (Some m)
      let ?r = "drop (m_index m + length (m_all m)) s"
      from c Some have c': "chooseMatch (boldMatch s) (italicMatch s) = (Some m, b)" by simp
      have "length ?r < length s" using chooseMatch_drop_shorter [OF c' False] .
      with 1 have ih: "concat (map (unparse_pair \<circ> segment_pair) (pdf_parse_loop [] ?r)) = ?r"
        by blast
      have "pdf_parse_loop [] s = pdf_emit s m b @ pdf_parse_loop [] ?r"
        using pdf_parse_loop_Some [OF False c', of "[]"] pdf_parse_loop_acc [of "pdf_emit s m b"]
        by simp
      then have "concat (map (unparse_pair \<circ> segment_pair) (pdf_parse_loop [] s))
                 = (take (m_index m) s @ m_all m) @ ?r"
        using ih unparse_pdf_emit [OF c'] by simp
      also have "\<dots> = s" using chooseMatch_split(3) [OF c'] by simp
      finally show ?thesis .
    qed
  qed
qed

lemma filter_unparse_pair:
  "CHR ''*'' \<notin> set (fst p) \<Longrightarrow> filter (\<lambda>c. c \<noteq> CHR ''*'') (unparse_pair p) = fst p"
  by (cases p; cases "snd p") (auto simp: unparse_pair_def filter_id_conv)



lemma pdf_parse_step:
  assumes "chooseMatch (boldMatch s) (italicMatch s) = (Some m, b)"
  shows "pdf_parseInlineFormatting s =
         pdf_emit s m b @ pdf_parseInlineFormatting (drop (m_index m + length (m_all m)) s)"
proof -
  from assms have "s \<noteq> []"
    by (cases s) (auto simp: chooseMatch_def boldMatch_def italicMatch_def)
  then show ?thesis
    using pdf_parse_loop_Some [OF _ assms, of "[]"] pdf_parse_loop_acc [of "pdf_emit s m b"]
    by (simp add: pdf_parseInlineFormatting_def)
qed

lemma count_markers_append [simp]:
  "count_markers (xs @ ys) = count_markers xs + count_markers ys"
  by (simp add: count_markers_def)

lemma count_markers_Cons [simp]:
  "count_markers (c # cs) = (if c = CHR ''*'' then 1 else 0) + count_markers cs"
  by (simp add: count_markers_def)

lemma count_markers_Nil [simp]: "count_markers [] = 0"
  by (simp add: count_markers_def)

lemma find_bold_markers: "find_bold i s = Some m \<Longrightarrow> 4 \<le> count_markers s"
proof -
  assume "find_bold i s = Some m"
  from find_bold_split [OF this] obtain pre r where
    "s = pre @ m_all m @ r" "m_all m = ''**'' @ m_group1 m @ ''**''" by blast
  then have "s = pre @ ''**'' @ m_group1 m @ ''**'' @ r" by simp
  then have "count_markers s = count_markers pre + 4 + count_markers (m_group1 m) + count_markers r"
    by (simp only: count_markers_append) simp
  then show ?thesis by simp
qed

lemma find_italic_markers: "find_italic i p s = Some m \<Longrightarrow> 2 \<le> count_markers s"
proof -
  assume "find_italic i p s = Some m"
  from find_italic_split [OF this] obtain pre r where
    "s = pre @ m_all m @ r" "m_all m = ''*'' @ m_group1 m @ ''*''" by blast
  then have "s = pre @ ''*'' @ m_group1 m @ ''*'' @ r" by simp
  then have "count_markers s = count_markers pre + 2 + count_markers (m_group1 m) + count_markers r"
    by (simp only: count_markers_append) simp
  then show ?thesis by simp
qed

lemma few_markers_no_match:
  assumes "count_markers s < 2"
  shows "boldMatch s = None" and "italicMatch s = None"
proof -
  show "boldMatch s = None"
    using assms find_bold_markers [of 0 s] by (cases "boldMatch s") (auto simp: boldMatch_def)
  show "italicMatch s = None"
    using assms find_italic_markers [of 0 None s]
    by (cases "italicMatch s") (auto simp: italicMatch_def)
qed

lemma no_match_single_segment:
  assumes "s \<noteq> []" and "boldMatch s = None" and "italicMatch s = None"
  shows "pdf_parseInlineFormatting s = [plainSeg s]"
proof -
  have "chooseMatch (boldMatch s) (italicMatch s) = (None, False)"
    using assms(2,3) by (simp add: chooseMatch_def)
  from pdf_parse_loop_None [OF assms(1) this] show ?thesis
    by (simp add: pdf_parseInlineFormatting_def)
qed

lemma count_markers_unparse:
  "count_markers (concat (map (unparse_pair \<circ> segment_pair) segs))
   = count_markers (concat (map seg_text segs))
     + 4 * length (filter (\<lambda>g. snd (segment_pair g) = Bold) segs)
     + 2 * length (filter (\<lambda>g. snd (segment_pair g) = Italic) segs)"
proof (induction segs)
  case Nil
  then show ?case by simp
next
  case (Cons g segs)
  have "count_markers (unparse_pair (segment_pair g))
        = count_markers (seg_text g)
          + (if snd (segment_pair g) = Bold then 4 else 0)
          + (if snd (segment_pair g) = Italic then 2 else 0)"
    by (simp add: unparse_pair_def segment_pair_def)
  with Cons show ?case by simp
qed

lemma toLowerCase_char_letter:
  assumes "97 \<le> (of_char y :: nat)" and "(of_char y :: nat) \<le> 122"
  shows "toLowerCase_char x = y \<longleftrightarrow> same_letter x y"
proof -
  let ?n = "of_char x :: nat"
  have lt: "?n < 256" by (rule nat_of_char_less_256)
  show ?thesis
  proof (cases "(65 \<le> ?n \<and> ?n \<le> 90) \<or> (192 \<le> ?n \<and> ?n \<le> 222 \<and> ?n \<noteq> 215)")
    case True
    then have l: "toLowerCase_char x = char_of (?n + 32)"
      by (simp add: toLowerCase_char_def Let_def)
    have m: "(?n + 32) mod 256 = ?n + 32" using True by auto
    have "char_of (?n + 32) = y \<longleftrightarrow> ?n + 32 = (of_char y :: nat)"
    proof
      assume "char_of (?n + 32) = y"
      then have "(of_char (char_of (?n + 32) :: char) :: nat) = of_char y" by simp
      then show "?n + 32 = (of_char y :: nat)" using m by (simp add: of_char_of)
    next
      assume "?n + 32 = (of_char y :: nat)"
      then have "char_of (?n + 32) = (char_of (of_char y :: nat) :: char)" by simp
      then show "char_of (?n + 32) = y" by simp
    qed
    moreover have "x \<noteq> y" using True assms by auto
    ultimately show ?thesis using l by (simp add: same_letter_def)
  next
    case False
    then have l: "toLowerCase_char x = x" by (auto simp: toLowerCase_char_def Let_def)
    have "?n + 32 \<noteq> (of_char y :: nat)" using False assms by auto
    with l show ?thesis by (auto simp: same_letter_def)
  qed
qed

lemma toLowerCase_txt: "toLowerCase f = ''txt'' \<longleftrightarrow> matches_ignoring_case f ''txt''"
  by (auto simp: toLowerCase_def matches_ignoring_case_def list_all2_Cons2
      toLowerCase_char_letter)

lemma toLowerCase_pdf: "toLowerCase f = ''pdf'' \<longleftrightarrow> matches_ignoring_case f ''pdf''"
  by (auto simp: toLowerCase_def matches_ignoring_case_def list_all2_Cons2
      toLowerCase_char_letter)

lemma toLowerCase_docx: "toLowerCase f = ''docx'' \<longleftrightarrow> matches_ignoring_case f ''docx''"
  by (auto simp: toLowerCase_def matches_ignoring_case_def list_all2_Cons2
      toLowerCase_char_letter)

lemma replace_bold_no_marker: "CHR ''*'' \<notin> set t \<Longrightarrow> replace_bold t = t"
  by (induction t) (auto simp: bold_pair_at_def)

lemma replace_italic_no_marker: "CHR ''*'' \<notin> set t \<Longrightarrow> replace_italic t = t"
  by (induction t) (auto simp: star_pair_at_def)

text \<open>The matchers on a string that starts with text free of asterisks.\<close>

lemma bold_at_no_star: "CHR ''*'' \<noteq> c \<Longrightarrow> bold_at (c # cs) = None"
  by (auto simp: bold_at_def)

lemma italic_at_no_star: "CHR ''*'' \<noteq> c \<Longrightarrow> italic_at p (c # cs) = None"
  by (auto simp: italic_at_def)

lemma find_bold_skip:
  "CHR ''*'' \<notin> set pre \<Longrightarrow> find_bold i (pre @ s) = find_bold (i + length pre) s"
proof (induction pre arbitrary: i)
  case Nil
  then show ?case by simp
next
  case (Cons a pre)
  then have "bold_at (a # pre @ s) = None" by (simp add: bold_at_no_star)
  moreover have "find_bold (Suc i) (pre @ s) = find_bold (Suc i + length pre) s"
    using Cons by simp
  ultimately show ?case by simp
qed

lemma find_italic_skip:
  "CHR ''*'' \<notin> set pre \<Longrightarrow>
   find_italic i p (pre @ s)
   = find_italic (i + length pre) (if pre = [] then p else Some (last pre)) s"
proof (induction pre arbitrary: i p)
  case Nil
  then show ?case by simp
next
  case (Cons a pre)
  then have "italic_at p (a # pre @ s) = None" by (simp add: italic_at_no_star)
  moreover have "find_italic (Suc i) (Some a) (pre @ s)
      = find_italic (Suc i + length pre) (if pre = [] then Some a else Some (last pre)) s"
    using Cons by simp
  ultimately show ?case by simp
qed

lemma lazy_to_bold_close_text:
  "CHR ''*'' \<notin> set t \<Longrightarrow> \<not> list_ex isLineTerminator t \<Longrightarrow>
   lazy_to_bold_close (t @ ''**'' @ r) = Some t"
proof (induction t)
  case Nil
  then show ?case by simp
next
  case (Cons c t)
  then have "CHR ''*'' \<noteq> c" "\<not> isLineTerminator c" "lazy_to_bold_close (t @ ''**'' @ r) = Some t"
    by simp_all
  then show ?case by simp
qed

lemma bold_at_span:
  assumes "t \<noteq> []" and "CHR ''*'' \<notin> set t" and "\<not> list_ex isLineTerminator t"
  shows "bold_at (''**'' @ t @ ''**'' @ r) = Some t"
proof -
  from assms(1) obtain c t' where t: "t = c # t'" by (cases t) auto
  with assms have "CHR ''*'' \<notin> set t'" "\<not> list_ex isLineTerminator t'" "\<not> isLineTerminator c"
    by simp_all
  with lazy_to_bold_close_text [of t' r] t show ?thesis
    by (simp add: bold_at_def)
qed

lemma lazy_to_italic_close_text:
  "CHR ''*'' \<notin> set t \<Longrightarrow> \<not> list_ex isLineTerminator t \<Longrightarrow> p \<noteq> CHR ''*'' \<Longrightarrow>
   \<not> startsWith r ''*'' \<Longrightarrow>
   lazy_to_italic_close p (t @ ''*'' @ r) = Some t"
proof (induction t arbitrary: p)
  case Nil
  then show ?case by simp
next
  case (Cons c t)
  then have c: "c \<noteq> CHR ''*''" "\<not> isLineTerminator c" by auto
  with Cons have "lazy_to_italic_close c (t @ ''*'' @ r) = Some t" by simp
  with c show ?case by simp
qed

lemma italic_at_span:
  assumes "t \<noteq> []" and "CHR ''*'' \<notin> set t" and "\<not> list_ex isLineTerminator t"
    and "prev \<noteq> Some (CHR ''*'')" and "\<not> startsWith r ''*''"
  shows "italic_at prev (''*'' @ t @ ''*'' @ r) = Some t"
proof -
  from assms(1) obtain c t' where t: "t = c # t'" by (cases t) auto
  with assms have "CHR ''*'' \<notin> set t'" "\<not> list_ex isLineTerminator t'" "\<not> isLineTerminator c"
    "c \<noteq> CHR ''*''"
    by auto
  with lazy_to_italic_close_text [of t' c r] t assms(4,5) show ?thesis
    by (simp add: italic_at_def)
qed

text \<open>The first span of a flat input is the match the loop chooses.\<close>

lemma bold_span_chosen:
  assumes pre: "CHR ''*'' \<notin> set pre"
    and t: "t \<noteq> []" "CHR ''*'' \<notin> set t" "\<not> list_ex isLineTerminator t"
  shows "chooseMatch (boldMatch (pre @ ''**'' @ t @ ''**'' @ r))
           (italicMatch (pre @ ''**'' @ t @ ''**'' @ r))
         = (Some \<lparr>m_index = length pre, m_all = ''**'' @ t @ ''**'', m_group1 = t\<rparr>, True)"
proof -
  let ?S = "''**'' @ t @ ''**'' @ r"
  let ?m = "\<lparr>m_index = length pre, m_all = ''**'' @ t @ ''**'', m_group1 = t\<rparr>"
  have "find_bold (length pre) ?S = Some ?m"
    using bold_at_span [OF t, of r] by simp
  then have b: "boldMatch (pre @ ?S) = Some ?m"
    using find_bold_skip [OF pre, of 0 ?S] by (simp add: boldMatch_def)
  let ?p = "if pre = [] then None else Some (last pre)"
  have "italic_at ?p ?S = None" by (simp add: italic_at_def)
  then have "find_italic (length pre) ?p ?S
             = find_italic (Suc (length pre)) (Some (CHR ''*'')) (tl ?S)"
    by simp
  then have i: "italicMatch (pre @ ?S)
             = find_italic (Suc (length pre)) (Some (CHR ''*'')) (tl ?S)"
    using find_italic_skip [OF pre, of 0 None ?S] by (simp add: italicMatch_def)
  show ?thesis
  proof (cases "italicMatch (pre @ ?S)")
    case None
    with b show ?thesis by (simp add: chooseMatch_def)
  next
    case (Some im)
    with i have "find_italic (Suc (length pre)) (Some (CHR ''*'')) (tl ?S) = Some im" by simp
    from find_italic_split [OF this] have "Suc (length pre) \<le> m_index im" by simp
    with b Some show ?thesis by (simp add: chooseMatch_def)
  qed
qed

lemma italic_span_chosen:
  assumes pre: "CHR ''*'' \<notin> set pre"
    and t: "t \<noteq> []" "CHR ''*'' \<notin> set t" "\<not> list_ex isLineTerminator t"
    and r: "\<not> startsWith r ''*''"
  shows "chooseMatch (boldMatch (pre @ ''*'' @ t @ ''*'' @ r))
           (italicMatch (pre @ ''*'' @ t @ ''*'' @ r))
         = (Some \<lparr>m_index = length pre, m_all = ''*'' @ t @ ''*'', m_group1 = t\<rparr>, False)"
proof -
  let ?S = "''*'' @ t @ ''*'' @ r"
  let ?m = "\<lparr>m_index = length pre, m_all = ''*'' @ t @ ''*'', m_group1 = t\<rparr>"
  let ?p = "if pre = [] then None else Some (last pre)"
  have "?p \<noteq> Some (CHR ''*'')"
  proof (cases "pre = []")
    case True
    then show ?thesis by simp
  next
    case False
    then have "last pre \<in> set pre" by (rule last_in_set)
    with pre have "last pre \<noteq> CHR ''*''" by metis
    with False show ?thesis by simp
  qed
  then have "italic_at ?p ?S = Some t" using italic_at_span [OF t _ r] by blast
  then have "find_italic (length pre) ?p ?S = Some ?m" by simp
  then have i: "italicMatch (pre @ ?S) = Some ?m"
    using find_italic_skip [OF pre, of 0 None ?S] by (simp add: italicMatch_def)
  from t obtain c t' where "t = c # t'" "CHR ''*'' \<noteq> c" by (cases t) auto
  then have "bold_at ?S = None" by (simp add: bold_at_def)
  then have "find_bold (length pre) ?S = find_bold (Suc (length pre)) (tl ?S)" by simp
  then have b: "boldMatch (pre @ ?S) = find_bold (Suc (length pre)) (tl ?S)"
    using find_bold_skip [OF pre, of 0 ?S] by (simp add: boldMatch_def)
  show ?thesis
  proof (cases "boldMatch (pre @ ?S)")
    case None
    with i show ?thesis by (simp add: chooseMatch_def)
  next
    case (Some bm)
    with b have "find_bold (Suc (length pre)) (tl ?S) = Some bm" by simp
    from find_bold_split [OF this] have "Suc (length pre) \<le> m_index bm" by simp
    with i Some show ?thesis by (simp add: chooseMatch_def)
  qed
qed

lemma flat_pieces_tail: "flat_pieces (p # ps) \<Longrightarrow> flat_pieces ps"
  by (cases p) simp

lemma flat_after_italic:
  assumes "flat_pieces ((t, Italic) # ps)"
  shows "\<not> startsWith (source_of ps) ''*''"
proof (cases ps)
  case Nil
  then show ?thesis by (simp add: source_of_def)
next
  case (Cons q qs)
  obtain t' e' where q: "q = (t', e')" by (cases q)
  with assms Cons have "e' = NoEmphasis" "t' \<noteq> []" "CHR ''*'' \<notin> set t'" by simp_all
  then obtain c r where "t' = c # r" "CHR ''*'' \<noteq> c" by (cases t') auto
  with Cons q \<open>e' = NoEmphasis\<close> show ?thesis
    by (simp add: source_of_def unparse_pair_def)
qed

text \<open>The segments of text free of asterisks followed by a flat input that starts with a span.\<close>

lemma span_first:
  assumes pre: "CHR ''*'' \<notin> set pre" and e: "e \<noteq> NoEmphasis"
    and flat: "flat_pieces ((t, e) # ps)"
  shows "map segment_pair (pdf_parseInlineFormatting (pre @ source_of ((t, e) # ps)))
         = (if pre = [] then [] else [(pre, NoEmphasis)]) @ (t, e)
           # map segment_pair (pdf_parseInlineFormatting (source_of ps))"
proof -
  from flat e have t: "t \<noteq> []" "CHR ''*'' \<notin> set t" "\<not> list_ex isLineTerminator t"
    by simp_all
  show ?thesis
  proof (cases e)
    case NoEmphasis
    with e show ?thesis by simp
  next
    case Bold
    let ?s = "pre @ ''**'' @ t @ ''**'' @ source_of ps"
    let ?m = "\<lparr>m_index = length pre, m_all = ''**'' @ t @ ''**'', m_group1 = t\<rparr>"
    have s: "pre @ source_of ((t, e) # ps) = ?s"
      using Bold by (simp add: source_of_def unparse_pair_def)
    have c: "chooseMatch (boldMatch ?s) (italicMatch ?s) = (Some ?m, True)"
      using bold_span_chosen [OF pre t] by simp
    have "length (pre @ ''**'' @ t @ ''**'') = m_index ?m + length (m_all ?m)" by simp
    then have d: "drop (m_index ?m + length (m_all ?m)) ?s = source_of ps"
      by (metis append.assoc append_eq_conv_conj)
    have "pdf_parseInlineFormatting ?s
          = pdf_emit ?s ?m True @ pdf_parseInlineFormatting (source_of ps)"
      using pdf_parse_step [OF c] d by simp
    moreover have "map segment_pair (pdf_emit ?s ?m True)
          = (if pre = [] then [] else [(pre, NoEmphasis)]) @ [(t, Bold)]"
      by (simp add: pdf_emit_def segment_pair_def plainSeg_def boldSeg_def)
    ultimately show ?thesis using s Bold by simp
  next
    case Italic
    let ?s = "pre @ ''*'' @ t @ ''*'' @ source_of ps"
    let ?m = "\<lparr>m_index = length pre, m_all = ''*'' @ t @ ''*'', m_group1 = t\<rparr>"
    have s: "pre @ source_of ((t, e) # ps) = ?s"
      using Italic by (simp add: source_of_def unparse_pair_def)
    have r: "\<not> startsWith (source_of ps) ''*''"
      using flat_after_italic flat Italic by blast
    have c: "chooseMatch (boldMatch ?s) (italicMatch ?s) = (Some ?m, False)"
      using italic_span_chosen [OF pre t r] by simp
    have "length (pre @ ''*'' @ t @ ''*'') = m_index ?m + length (m_all ?m)" by simp
    then have d: "drop (m_index ?m + length (m_all ?m)) ?s = source_of ps"
      by (metis append.assoc append_eq_conv_conj)
    have "pdf_parseInlineFormatting ?s
          = pdf_emit ?s ?m False @ pdf_parseInlineFormatting (source_of ps)"
      using pdf_parse_step [OF c] d by simp
    moreover have "map segment_pair (pdf_emit ?s ?m False)
          = (if pre = [] then [] else [(pre, NoEmphasis)]) @ [(t, Italic)]"
      by (simp add: pdf_emit_def segment_pair_def plainSeg_def italicSeg_def)
    ultimately show ?thesis using s Italic by simp
  qed
qed

text \<open>The parser returns the pieces of a flat input.\<close>

lemma parse_flat_pieces:
  "flat_pieces ps \<Longrightarrow> map segment_pair (pdf_parseInlineFormatting (source_of ps)) = ps"
proof (induction ps rule: length_induct)
  case (1 ps)
  show ?case
  proof (cases ps)
    case Nil
    then show ?thesis
      by (simp add: source_of_def pdf_parseInlineFormatting_def pdf_parse_loop_Nil)
  next
    case (Cons q qs)
    obtain t e where q: "q = (t, e)" by (cases q)
    have fq: "flat_pieces qs" using 1(2) Cons flat_pieces_tail by blast
    show ?thesis
    proof (cases "e = NoEmphasis")
      case False
      have "map segment_pair (pdf_parseInlineFormatting ([] @ source_of ((t, e) # qs)))
            = (t, e) # map segment_pair (pdf_parseInlineFormatting (source_of qs))"
        using span_first [of "[]" e t qs] False 1(2) Cons q by simp
      moreover have "map segment_pair (pdf_parseInlineFormatting (source_of qs)) = qs"
        using 1(1) fq Cons by simp
      ultimately show ?thesis using Cons q by simp
    next
      case True
      note plain = this
      from 1(2) Cons q have t: "t \<noteq> []" "CHR ''*'' \<notin> set t" by simp_all
      show ?thesis
      proof (cases qs)
        case Nil
        have "count_markers t = 0" using t(2) by (auto simp: count_markers_def filter_empty_conv)
        then have "pdf_parseInlineFormatting t = [plainSeg t]"
          using few_markers_no_match [of t] no_match_single_segment [OF t(1)] by simp
        with Nil Cons q plain show ?thesis
          by (simp add: source_of_def unparse_pair_def segment_pair_def plainSeg_def)
      next
        case (Cons q' qs')
        obtain t' e' where q': "q' = (t', e')" by (cases q')
        from 1(2) \<open>ps = q # qs\<close> q Cons q' plain have e': "e' \<noteq> NoEmphasis" by simp
        have f': "flat_pieces ((t', e') # qs')" using fq Cons q' by simp
        have "source_of ps = t @ source_of ((t', e') # qs')"
          using \<open>ps = q # qs\<close> q Cons q' plain by (simp add: source_of_def unparse_pair_def)
        then have "map segment_pair (pdf_parseInlineFormatting (source_of ps))
              = (t, NoEmphasis) # (t', e')
                # map segment_pair (pdf_parseInlineFormatting (source_of qs'))"
          using span_first [OF t(2) e' f'] t(1) by simp
        moreover have "map segment_pair (pdf_parseInlineFormatting (source_of qs')) = qs'"
          using 1(1) flat_pieces_tail [OF f'] \<open>ps = q # qs\<close> Cons by simp
        ultimately show ?thesis using \<open>ps = q # qs\<close> q Cons q' plain by simp
      qed
    qed
  qed
qed

lemma remove_markers_flat:
  "flat_pieces ps \<Longrightarrow> remove_markers (source_of ps) = concat (map fst ps)"
proof (induction ps)
  case Nil
  then show ?case by (simp add: remove_markers_def source_of_def)
next
  case (Cons q ps)
  obtain t e where q: "q = (t, e)" by (cases q)
  with Cons.prems have "CHR ''*'' \<notin> set (fst q)" by simp
  then have "filter (\<lambda>c. c \<noteq> CHR ''*'') (unparse_pair q) = fst q"
    by (rule filter_unparse_pair)
  moreover have "remove_markers (source_of ps) = concat (map fst ps)"
    using Cons flat_pieces_tail by blast
  ultimately show ?case by (simp add: remove_markers_def source_of_def)
qed

lemma source_of_flat_nonempty: "flat_pieces ps \<Longrightarrow> ps \<noteq> [] \<Longrightarrow> source_of ps \<noteq> []"
proof (cases ps)
  case Nil
  assume "ps \<noteq> []"
  with Nil show ?thesis by simp
next
  case (Cons q qs)
  assume "flat_pieces ps"
  obtain t e where q: "q = (t, e)" by (cases q)
  with \<open>flat_pieces ps\<close> Cons have "t \<noteq> []" by simp
  with Cons q show ?thesis by (cases e) (simp_all add: source_of_def unparse_pair_def)
qed

lemma index_of_bound: "index_of d s = Some i \<Longrightarrow> i + length d \<le> length s"
proof (induction s arbitrary: i)
  case Nil
  then show ?case by (simp split: if_splits)
next
  case (Cons c cs)
  show ?case
  proof (cases "startsWith (c # cs) d")
    case True
    then obtain r where "c # cs = d @ r" by (auto simp: startsWith_append)
    then have "length (c # cs) = length d + length r" by (metis length_append)
    with True Cons.prems show ?thesis by simp
  next
    case False
    with Cons.prems obtain i' where "index_of d cs = Some i'" "i = Suc i'" by auto
    with Cons.IH [of i'] show ?thesis by simp
  qed
qed

lemma pair_after_shorter:
  assumes "d \<noteq> []" and "index_of d s = Some i"
    and "pair_after d (drop (i + length d) s) = Some (inner, rest)"
  shows "length rest < length s"
proof -
  from assms(1) obtain x xs where d: "d = x # xs" by (cases d) auto
  from assms(3) obtain j where "rest = drop (j + length d) (drop (i + length d) s)"
    by (auto simp: pair_after_def split: option.splits if_splits)
  moreover have "i + length d \<le> length s" using assms(2) by (rule index_of_bound)
  ultimately show ?thesis using d by simp
qed

lemma index_of_shorter:
  assumes "d \<noteq> []" and "index_of d s = Some i"
  shows "length (drop (Suc i) s) < length s"
proof -
  from assms(1) obtain x xs where d: "d = x # xs" by (cases d) auto
  have "i + length d \<le> length s" using assms(2) by (rule index_of_bound)
  then show ?thesis using d by simp
qed

termination strip_pairs
proof (relation "measure (\<lambda>(d, s). length s)", goal_cases)
  case 1
  show ?case by simp
next
  case 2
  then show ?case using pair_after_shorter index_of_shorter by auto
next
  case 3
  then show ?case using pair_after_shorter index_of_shorter by auto
qed

declare strip_pairs.simps [simp del]

lemma strip_pairs_None:
  "d \<noteq> [] \<Longrightarrow> index_of d s = None \<Longrightarrow> strip_pairs d s = s"
  by (subst strip_pairs.simps) simp

lemma strip_pairs_pair:
  "d \<noteq> [] \<Longrightarrow> index_of d s = Some i \<Longrightarrow>
   pair_after d (drop (i + length d) s) = Some (inner, rest) \<Longrightarrow>
   strip_pairs d s = take i s @ inner @ strip_pairs d rest"
  by (subst strip_pairs.simps) simp

lemma strip_pairs_no_pair:
  "d \<noteq> [] \<Longrightarrow> index_of d s = Some i \<Longrightarrow>
   pair_after d (drop (i + length d) s) = None \<Longrightarrow>
   strip_pairs d s = take (Suc i) s @ strip_pairs d (drop (Suc i) s)"
  by (subst strip_pairs.simps) simp

lemma index_of_starts: "index_of d s = Some i \<Longrightarrow> startsWith (drop i s) d"
proof (induction s arbitrary: i)
  case Nil
  then show ?case by (simp split: if_splits)
next
  case (Cons c cs)
  show ?case
  proof (cases "startsWith (c # cs) d")
    case True
    with Cons.prems show ?thesis by simp
  next
    case False
    with Cons.prems obtain i' where "index_of d cs = Some i'" "i = Suc i'" by auto
    with Cons.IH [of i'] show ?thesis by simp
  qed
qed

text \<open>The lazy quantifiers of the replacements end at the next occurrence of the delimiter.\<close>

lemma lazy_to_bold_close_index:
  "lazy_to_bold_close s =
     (case index_of ''**'' s of
        None \<Rightarrow> None
      | Some j \<Rightarrow> if list_ex isLineTerminator (take j s) then None else Some (take j s))"
proof (induction s)
  case Nil
  then show ?case by simp
next
  case (Cons c cs)
  show ?case
  proof (cases "startsWith (c # cs) ''**''")
    case True
    then show ?thesis by simp
  next
    case False
    show ?thesis
    proof (cases "index_of ''**'' cs")
      case None
      with False Cons show ?thesis by simp
    next
      case (Some j)
      with False Cons show ?thesis by simp
    qed
  qed
qed

lemma lazy_to_star_index:
  "lazy_to_star s =
     (case index_of ''*'' s of
        None \<Rightarrow> None
      | Some j \<Rightarrow> if list_ex isLineTerminator (take j s) then None else Some (take j s))"
proof (induction s)
  case Nil
  then show ?case by simp
next
  case (Cons c cs)
  show ?case
  proof (cases "c = CHR ''*''")
    case True
    then show ?thesis by simp
  next
    case False
    show ?thesis
    proof (cases "index_of ''*'' cs")
      case None
      with False Cons show ?thesis by simp
    next
      case (Some j)
      with False Cons show ?thesis by simp
    qed
  qed
qed

lemma bold_pair_at_not_starts: "\<not> startsWith s ''**'' \<Longrightarrow> bold_pair_at s = None"
  by (simp add: bold_pair_at_def)

lemma star_pair_at_not_starts: "\<not> startsWith s ''*'' \<Longrightarrow> star_pair_at s = None"
  by (simp add: star_pair_at_def)

lemma drop_drop_2_2: "drop (j + length ''**'') (drop 2 s) = drop (j + 4) s"
proof -
  have "drop (j + 2) (drop 2 s) = drop (j + 2 + 2) s" by (rule drop_drop)
  moreover have "j + 2 + 2 = j + 4" by arith
  moreover have "j + length ''**'' = j + 2" by simp
  ultimately show ?thesis by (simp only:)
qed

lemma drop_drop_1_1: "drop (j + length ''*'') (drop 1 s) = drop (j + 2) s"
proof -
  have "drop (j + 1) (drop 1 s) = drop (j + 1 + 1) s" by (rule drop_drop)
  moreover have "j + 1 + 1 = j + 2" by arith
  moreover have "j + length ''*'' = j + 1" by simp
  ultimately show ?thesis by (simp only:)
qed

lemma bold_pair_at_pair_after:
  "bold_pair_at s = (if startsWith s ''**'' then pair_after ''**'' (drop 2 s) else None)"
proof (cases "startsWith s ''**''")
  case False
  then show ?thesis by (simp add: bold_pair_at_def)
next
  case True
  show ?thesis
  proof (cases "index_of ''**'' (drop 2 s)")
    case None
    with True show ?thesis
      by (simp add: bold_pair_at_def pair_after_def lazy_to_bold_close_index)
  next
    case (Some j)
    from index_of_bound [OF Some] have j: "j \<le> length (drop 2 s)" by simp
    then have "length (take j (drop 2 s)) = j" by simp
    moreover note drop_drop_2_2 [of j s]
    ultimately show ?thesis using True Some
      by (simp add: bold_pair_at_def pair_after_def lazy_to_bold_close_index
          del: drop_drop)
  qed
qed

lemma star_pair_at_pair_after:
  "star_pair_at s = (if startsWith s ''*'' then pair_after ''*'' (drop 1 s) else None)"
proof (cases "startsWith s ''*''")
  case False
  then show ?thesis by (simp add: star_pair_at_def)
next
  case True
  show ?thesis
  proof (cases "index_of ''*'' (drop 1 s)")
    case None
    with True show ?thesis
      by (simp add: star_pair_at_def pair_after_def lazy_to_star_index)
  next
    case (Some j)
    from index_of_bound [OF Some] have j: "j \<le> length (drop 1 s)" by simp
    then have "length (take j (drop 1 s)) = j" by simp
    moreover note drop_drop_1_1 [of j s]
    ultimately show ?thesis using True Some
      by (simp add: star_pair_at_def pair_after_def lazy_to_star_index
          del: drop_drop)
  qed
qed

text \<open>Before the first occurrence of the delimiter the replacements copy the text.\<close>

lemma replace_bold_copy:
  "index_of ''**'' s = Some i \<Longrightarrow> replace_bold s = take i s @ replace_bold (drop i s)"
proof (induction s arbitrary: i)
  case Nil
  then show ?case by simp
next
  case (Cons c cs)
  show ?case
  proof (cases "startsWith (c # cs) ''**''")
    case True
    with Cons.prems show ?thesis by simp
  next
    case False
    with Cons.prems obtain i' where i': "index_of ''**'' cs = Some i'" "i = Suc i'" by auto
    from False have "bold_pair_at (c # cs) = None" by (rule bold_pair_at_not_starts)
    with Cons.IH [OF i'(1)] i'(2) show ?thesis by simp
  qed
qed

lemma replace_bold_none: "index_of ''**'' s = None \<Longrightarrow> replace_bold s = s"
proof (induction s)
  case Nil
  then show ?case by simp
next
  case (Cons c cs)
  then have n: "\<not> startsWith (c # cs) ''**''" and "index_of ''**'' cs = None"
    by (auto split: if_splits)
  from n have "bold_pair_at (c # cs) = None" by (rule bold_pair_at_not_starts)
  with Cons.IH \<open>index_of ''**'' cs = None\<close> show ?case by simp
qed

lemma replace_italic_copy:
  "index_of ''*'' s = Some i \<Longrightarrow> replace_italic s = take i s @ replace_italic (drop i s)"
proof (induction s arbitrary: i)
  case Nil
  then show ?case by simp
next
  case (Cons c cs)
  show ?case
  proof (cases "startsWith (c # cs) ''*''")
    case True
    with Cons.prems show ?thesis by simp
  next
    case False
    with Cons.prems obtain i' where i': "index_of ''*'' cs = Some i'" "i = Suc i'" by auto
    from False have "star_pair_at (c # cs) = None" by (rule star_pair_at_not_starts)
    with Cons.IH [OF i'(1)] i'(2) show ?thesis by simp
  qed
qed

lemma replace_italic_none: "index_of ''*'' s = None \<Longrightarrow> replace_italic s = s"
proof (induction s)
  case Nil
  then show ?case by simp
next
  case (Cons c cs)
  then have n: "\<not> startsWith (c # cs) ''*''" and "index_of ''*'' cs = None"
    by (auto split: if_splits)
  from n have "star_pair_at (c # cs) = None" by (rule star_pair_at_not_starts)
  with Cons.IH \<open>index_of ''*'' cs = None\<close> show ?case by simp
qed

text \<open>
  The two global replacements of the exporters replace the pairs of \<open>**\<close> and of
  \<open>*\<close> by the text between them.
\<close>

lemma replace_bold_strip_pairs: "replace_bold s = strip_pairs ''**'' s"
proof (induction s rule: length_induct)
  case (1 s)
  show ?case
  proof (cases "index_of ''**'' s")
    case None
    then show ?thesis by (simp add: replace_bold_none strip_pairs_None)
  next
    case (Some i)
    let ?t = "drop i s"
    have sw: "startsWith ?t ''**''" using Some by (rule index_of_starts)
    then obtain c cs where t: "?t = c # cs" by (cases ?t) auto
    have ib: "i + 2 \<le> length s" using index_of_bound [OF Some] by simp
    have d2: "drop 2 ?t = drop (i + length ''**'') s" by (simp add: add.commute)
    show ?thesis
    proof (cases "pair_after ''**'' (drop (i + length ''**'') s)")
      case None
      then have "bold_pair_at ?t = None" using sw d2 by (simp add: bold_pair_at_pair_after)
      then have "replace_bold ?t = c # replace_bold cs" using t by simp
      moreover have il: "i < length s" using ib by simp
      moreover have "cs = drop (Suc i) s" using t Cons_nth_drop_Suc [OF il] by simp
      moreover have "take i s @ [c] = take (Suc i) s"
      proof -
        have "s ! i = c" using t by (rule nth_via_drop)
        then show ?thesis using il by (simp add: take_Suc_conv_app_nth)
      qed
      moreover have "replace_bold (drop (Suc i) s) = strip_pairs ''**'' (drop (Suc i) s)"
        using 1 ib by simp
      ultimately have "replace_bold s = take (Suc i) s @ strip_pairs ''**'' (drop (Suc i) s)"
        using replace_bold_copy [OF Some] by simp
      then show ?thesis using strip_pairs_no_pair [OF _ Some None] by simp
    next
      case (Some p)
      obtain inner rest where p: "p = (inner, rest)" by (cases p)
      with Some have pa: "pair_after ''**'' (drop (i + length ''**'') s) = Some (inner, rest)"
        by simp
      then have "bold_pair_at ?t = Some (inner, rest)"
        using sw d2 by (simp add: bold_pair_at_pair_after)
      then have "replace_bold ?t = inner @ replace_bold rest" using t by simp
      moreover have "length rest < length s"
        using pair_after_shorter [OF _ \<open>index_of ''**'' s = Some i\<close> pa] by simp
      then have "replace_bold rest = strip_pairs ''**'' rest" using 1 by simp
      ultimately have "replace_bold s = take i s @ inner @ strip_pairs ''**'' rest"
        using replace_bold_copy [OF \<open>index_of ''**'' s = Some i\<close>] by simp
      then show ?thesis
        using strip_pairs_pair [OF _ \<open>index_of ''**'' s = Some i\<close> pa] by simp
    qed
  qed
qed

lemma replace_italic_strip_pairs: "replace_italic s = strip_pairs ''*'' s"
proof (induction s rule: length_induct)
  case (1 s)
  show ?case
  proof (cases "index_of ''*'' s")
    case None
    then show ?thesis by (simp add: replace_italic_none strip_pairs_None)
  next
    case (Some i)
    let ?t = "drop i s"
    have sw: "startsWith ?t ''*''" using Some by (rule index_of_starts)
    then obtain c cs where t: "?t = c # cs" by (cases ?t) auto
    have ib: "i + 1 \<le> length s" using index_of_bound [OF Some] by simp
    have d1: "drop 1 ?t = drop (i + length ''*'') s" by (simp add: add.commute)
    show ?thesis
    proof (cases "pair_after ''*'' (drop (i + length ''*'') s)")
      case None
      then have "star_pair_at ?t = None" using sw d1 by (simp add: star_pair_at_pair_after)
      then have "replace_italic ?t = c # replace_italic cs" using t by simp
      moreover have il: "i < length s" using ib by simp
      moreover have "cs = drop (Suc i) s" using t Cons_nth_drop_Suc [OF il] by simp
      moreover have "take i s @ [c] = take (Suc i) s"
      proof -
        have "s ! i = c" using t by (rule nth_via_drop)
        then show ?thesis using il by (simp add: take_Suc_conv_app_nth)
      qed
      moreover have "replace_italic (drop (Suc i) s) = strip_pairs ''*'' (drop (Suc i) s)"
        using 1 ib by simp
      ultimately have "replace_italic s = take (Suc i) s @ strip_pairs ''*'' (drop (Suc i) s)"
        using replace_italic_copy [OF Some] by simp
      then show ?thesis using strip_pairs_no_pair [OF _ Some None] by simp
    next
      case (Some p)
      obtain inner rest where p: "p = (inner, rest)" by (cases p)
      with Some have pa: "pair_after ''*'' (drop (i + length ''*'') s) = Some (inner, rest)"
        by simp
      then have "star_pair_at ?t = Some (inner, rest)"
        using sw d1 by (simp add: star_pair_at_pair_after)
      then have "replace_italic ?t = inner @ replace_italic rest" using t by simp
      moreover have "length rest < length s"
        using pair_after_shorter [OF _ \<open>index_of ''*'' s = Some i\<close> pa] by simp
      then have "replace_italic rest = strip_pairs ''*'' rest" using 1 by simp
      ultimately have "replace_italic s = take i s @ inner @ strip_pairs ''*'' rest"
        using replace_italic_copy [OF \<open>index_of ''*'' s = Some i\<close>] by simp
      then show ?thesis
        using strip_pairs_pair [OF _ \<open>index_of ''*'' s = Some i\<close> pa] by simp
    qed
  qed
qed

lemma index_of_no_marker:
  "d \<noteq> [] \<Longrightarrow> hd d \<notin> set t \<Longrightarrow> index_of d t = None"
proof (induction t)
  case Nil
  then show ?case by simp
next
  case (Cons c cs)
  then have "\<not> startsWith (c # cs) d" by (cases d) auto
  with Cons show ?case by simp
qed

text \<open>What the line parsers push for a line.\<close>

lemma pdf_parse_line_view:
  "map (\<lambda>l. (pdf_line_kind l, line_text l)) (pdf_parse_line parsed line)
   = map (\<lambda>l. (pdf_line_kind l, line_text l)) parsed
     @ [(classify_line (trim line), pdf_line_text (trim line))]"
  by (simp add: pdf_parse_line_def Let_def classify_line_def pdf_line_text_def pdf_line_kind_def
      replace_bold_strip_pairs replace_italic_strip_pairs)

lemma pdf_parse_lines_view:
  "map (\<lambda>l. (pdf_line_kind l, line_text l)) (foldl pdf_parse_line parsed ls)
   = map (\<lambda>l. (pdf_line_kind l, line_text l)) parsed
     @ map (\<lambda>line. (classify_line (trim line), pdf_line_text (trim line))) ls"
  by (induction ls arbitrary: parsed) (simp_all add: pdf_parse_line_view)

lemma unparse_docx_runs:
  "concat (map (unparse_pair \<circ> run_pair) (docx_parseInlineFormatting s)) = s"
proof (cases "s = []")
  case True
  then show ?thesis
    by (simp add: docx_parseInlineFormatting_def docx_parse_loop_Nil unparse_pair_def
        run_pair_def plainRun_def)
next
  case False
  have eq: "map run_pair (docx_parse_loop [] s) = map segment_pair (pdf_parse_loop [] s)"
    using loops_agree [of "[]" "[]" s] by simp
  moreover have "pdf_parse_loop [] s \<noteq> []" using False by (rule pdf_parse_loop_nonempty)
  ultimately have "docx_parse_loop [] s \<noteq> []" by auto
  then have "map run_pair (docx_parseInlineFormatting s) = map segment_pair (pdf_parse_loop [] s)"
    using eq by (simp add: docx_parseInlineFormatting_def Let_def)
  then have "map unparse_pair (map run_pair (docx_parseInlineFormatting s))
           = map unparse_pair (map segment_pair (pdf_parse_loop [] s))" by simp
  then show ?thesis using unparse_pdf_parse_loop [of s] by (simp add: comp_def)
qed

lemma docx_parse_line_node:
  "\<exists>node. docx_parse_line paragraphs line = paragraphs @ [node] \<and> docx_node_for line node"
proof -
  consider (empty) "trim line = []"
    | (h1) "trim line \<noteq> []" "startsWith (trim line) ''# ''"
    | (h2) "trim line \<noteq> []" "\<not> startsWith (trim line) ''# ''" "startsWith (trim line) ''## ''"
    | (par) "trim line \<noteq> []" "\<not> startsWith (trim line) ''# ''"
        "\<not> startsWith (trim line) ''## ''"
    by blast
  then show ?thesis
  proof cases
    case empty
    then show ?thesis
      by (simp add: docx_parse_line_def docx_node_for_def classify_line_def docx_node_kind_def)
  next
    case h1
    then show ?thesis
      by (simp add: docx_parse_line_def docx_node_for_def classify_line_def docx_node_kind_def)
  next
    case h2
    then show ?thesis
      by (simp add: docx_parse_line_def docx_node_for_def classify_line_def docx_node_kind_def)
  next
    case par
    then show ?thesis
      by (simp add: docx_parse_line_def docx_node_for_def classify_line_def docx_node_kind_def
          unparse_docx_runs Let_def)
  qed
qed

lemma docx_parse_lines_nodes:
  "list_all2 docx_node_for ls0 paragraphs \<Longrightarrow>
   list_all2 docx_node_for (ls0 @ ls) (foldl docx_parse_line paragraphs ls)"
proof (induction ls arbitrary: ls0 paragraphs)
  case Nil
  then show ?case by simp
next
  case (Cons l ls)
  from docx_parse_line_node [of paragraphs l] obtain node where
    n: "docx_parse_line paragraphs l = paragraphs @ [node]" "docx_node_for l node" by blast
  have "list_all2 docx_node_for (ls0 @ [l]) (paragraphs @ [node])"
    using Cons.prems n(2) by (simp add: list_all2_appendI)
  from Cons.IH [OF this] n(1) show ?case by simp
qed

lemma row_flow_append:
  "row_flow x lh y (a @ b) \<longleftrightarrow> row_flow x lh y a \<and> row_flow x lh (last_row y a) b"
proof (induction a arbitrary: y)
  case Nil
  then show ?case by simp
next
  case (Cons op a)
  then show ?case by (cases op) auto
qed

lemma last_row_append: "last_row y (a @ b) = last_row (last_row y a) b"
proof (induction a arbitrary: y)
  case Nil
  then show ?case by simp
next
  case (Cons op a)
  then show ?case by (cases op) auto
qed

lemma with_spaces_Cons:
  "with_spaces (w # rest) = (if rest \<noteq> [] then w @ '' '' else w) # with_spaces rest"
  by (cases rest) simp_all

text \<open>The words of a segment are drawn in rows that flow from the current row.\<close>

lemma render_words_rows:
  "\<exists>body cx' doc'.
     render_words tw x maxWidth lh (cx, cy, doc) ws = (cx', last_row cy body, doc')
     \<and> doc_ops doc' = doc_ops doc @ body \<and> row_flow x lh cy body
     \<and> map op_text body = with_spaces ws"
proof (induction ws arbitrary: cx cy doc)
  case Nil
  then show ?case by simp
next
  case (Cons w ws)
  let ?ww = "if ws \<noteq> [] then w @ '' '' else w"
  let ?wd = "getTextWidth tw doc ?ww"
  let ?wrap = "cx + ?wd > x + maxWidth"
  let ?cx = "if ?wrap then x else cx"
  let ?cy = "if ?wrap then cy + lh else cy"
  let ?doc = "draw_text ?ww ?cx ?cy doc"
  have step: "render_words tw x maxWidth lh (cx, cy, doc) (w # ws)
        = render_words tw x maxWidth lh (?cx + ?wd, ?cy, ?doc) ws"
    by (simp add: Let_def)
  from Cons.IH [of "?cx + ?wd" ?cy ?doc] obtain body cx' doc' where
    r: "render_words tw x maxWidth lh (?cx + ?wd, ?cy, ?doc) ws = (cx', last_row ?cy body, doc')"
       "doc_ops doc' = doc_ops ?doc @ body" "row_flow x lh ?cy body"
       "map op_text body = with_spaces ws"
    by blast
  let ?body = "Text ?ww ?cx ?cy # body"
  have "render_words tw x maxWidth lh (cx, cy, doc) (w # ws) = (cx', last_row cy ?body, doc')"
    using step r(1) by simp
  moreover have "doc_ops doc' = doc_ops doc @ ?body"
    using r(2) by (simp add: draw_text_def)
  moreover have "row_flow x lh cy ?body" using r(3) by simp
  moreover have "map op_text ?body = with_spaces (w # ws)"
    using r(4) by (simp add: with_spaces_Cons)
  ultimately show ?case by blast
qed

lemma render_segment_rows:
  "\<exists>body cx' doc'.
     render_segment tw x maxWidth lh (cx, cy, doc) seg = (cx', last_row cy body, doc')
     \<and> doc_ops doc' = doc_ops doc @ body \<and> row_flow x lh cy body
     \<and> map op_text body = with_spaces (split_char CHR '' '' (seg_text seg))"
proof -
  let ?doc = "if seg_bold seg then setFont ''bold'' doc
              else if seg_italic seg then setFont ''italic'' doc
              else setFont ''normal'' doc"
  have o: "doc_ops ?doc = doc_ops doc" by (simp add: setFont_def)
  have "render_segment tw x maxWidth lh (cx, cy, doc) seg
        = render_words tw x maxWidth lh (cx, cy, ?doc) (split_char CHR '' '' (seg_text seg))"
    by (simp add: render_segment_def Let_def)
  with render_words_rows [of tw x maxWidth lh cx cy ?doc "split_char CHR '' '' (seg_text seg)"] o
  show ?thesis by metis
qed

lemma render_segments_rows:
  "\<exists>body cx' doc'.
     foldl (render_segment tw x maxWidth lh) (cx, cy, doc) segs = (cx', last_row cy body, doc')
     \<and> doc_ops doc' = doc_ops doc @ body \<and> row_flow x lh cy body
     \<and> map op_text body
         = concat (map (\<lambda>seg. with_spaces (split_char CHR '' '' (seg_text seg))) segs)"
proof (induction segs arbitrary: cx cy doc)
  case Nil
  have "foldl (render_segment tw x maxWidth lh) (cx, cy, doc) [] = (cx, last_row cy [], doc)"
    by simp
  then show ?case by force
next
  case (Cons seg segs)
  from render_segment_rows [of tw x maxWidth lh cx cy doc seg]
  obtain b1 cx1 doc1 where
    s: "render_segment tw x maxWidth lh (cx, cy, doc) seg = (cx1, last_row cy b1, doc1)"
       "doc_ops doc1 = doc_ops doc @ b1" "row_flow x lh cy b1"
       "map op_text b1 = with_spaces (split_char CHR '' '' (seg_text seg))"
    by blast
  from Cons.IH [of cx1 "last_row cy b1" doc1] obtain b2 cx' doc' where
    r: "foldl (render_segment tw x maxWidth lh) (cx1, last_row cy b1, doc1) segs
          = (cx', last_row (last_row cy b1) b2, doc')"
       "doc_ops doc' = doc_ops doc1 @ b2" "row_flow x lh (last_row cy b1) b2"
       "map op_text b2
          = concat (map (\<lambda>seg. with_spaces (split_char CHR '' '' (seg_text seg))) segs)"
    by blast
  have "foldl (render_segment tw x maxWidth lh) (cx, cy, doc) (seg # segs)
        = (cx', last_row cy (b1 @ b2), doc')"
    using s(1) r(1) by (simp add: last_row_append)
  moreover have "doc_ops doc' = doc_ops doc @ (b1 @ b2)" using s(2) r(2) by simp
  moreover have "row_flow x lh cy (b1 @ b2)" using s(3) r(3) by (simp add: row_flow_append)
  moreover have "map op_text (b1 @ b2)
      = concat (map (\<lambda>seg. with_spaces (split_char CHR '' '' (seg_text seg))) (seg # segs))"
    using s(4) r(4) by simp
  ultimately show ?case by blast
qed

text \<open>What \<open>draw_line\<close> adds to the document, and the cursor it returns.\<close>

lemma draw_line_drawn:
  "\<exists>body. doc_ops (fst (draw_line tw 7 (doc, c) line)) = doc_ops doc @ body
          \<and> line_drawn c line body
          \<and> snd (draw_line tw 7 (doc, c) line) = line_advance line c body"
proof -
  consider (h1) "line_type line = ''h1''"
    | (h2) "line_type line \<noteq> ''h1''" "line_type line = ''h2''"
    | (par) "line_type line \<noteq> ''h1''" "line_type line \<noteq> ''h2''" "line_type line = ''paragraph''"
    | (other) "line_type line \<noteq> ''h1''" "line_type line \<noteq> ''h2''" "line_type line \<noteq> ''paragraph''"
    by blast
  then show ?thesis
  proof cases
    case h1
    then show ?thesis
      by (simp add: draw_line_def draw_text_def setFont_def setFontSize_def line_drawn_def
          line_advance_def)
  next
    case h2
    then show ?thesis
      by (simp add: draw_line_def draw_text_def setFont_def setFontSize_def line_drawn_def
          line_advance_def)
  next
    case par
    from render_segments_rows [of tw 20 170 7 20 c "setFontSize 12 doc"
        "pdf_parseInlineFormatting (line_text line)"]
    obtain body cx' doc' where
      r: "foldl (render_segment tw 20 170 7) (20, c, setFontSize 12 doc)
            (pdf_parseInlineFormatting (line_text line)) = (cx', last_row c body, doc')"
         "doc_ops doc' = doc_ops (setFontSize 12 doc) @ body" "row_flow 20 7 c body"
         "map op_text body = paragraph_words (line_text line)"
      unfolding paragraph_words_def by blast
    have "draw_line tw 7 (doc, c) line = (doc', last_row c body + 7)"
      using par r(1) by (simp add: draw_line_def renderParagraphWithFormatting_def Let_def)
    with r(2,3,4) par show ?thesis
      by (simp add: setFontSize_def line_drawn_def line_advance_def)
  next
    case other
    then show ?thesis
      by (cases "line_type line = ''empty''")
         (simp_all add: draw_line_def line_drawn_def line_advance_def)
  qed
qed

text \<open>The operations of the loop over the lines, from any state.\<close>

lemma export_lines_paged:
  assumes "40 \<le> H"
  shows "\<exists>blocks. doc_ops (fst (foldl (export_line tw H 7) (doc, y) lines))
                   = doc_ops doc @ concat blocks
                 \<and> paged_log H y lines blocks"
proof (induction lines arbitrary: doc y)
  case Nil
  have "paged_log H y [] []" by simp
  then show ?case by force
next
  case (Cons line lines)
  let ?c = "if y > H - 20 then 20 else y"
  let ?d = "if y > H - 20 then addPage doc else doc"
  have pc: "page_check H (doc, y) = (?d, ?c)" by (simp add: page_check_def)
  from draw_line_drawn [of tw ?d ?c line] obtain body where
    b: "doc_ops (fst (draw_line tw 7 (?d, ?c) line)) = doc_ops ?d @ body"
       "line_drawn ?c line body"
       "snd (draw_line tw 7 (?d, ?c) line) = line_advance line ?c body"
    by blast
  obtain doc' y' where st: "export_line tw H 7 (doc, y) line = (doc', y')"
    by (cases "export_line tw H 7 (doc, y) line")
  then have d: "draw_line tw 7 (?d, ?c) line = (doc', y')"
    using pc by (simp add: export_line_def)
  from Cons.IH [of doc' y'] obtain blocks where
    ih: "doc_ops (fst (foldl (export_line tw H 7) (doc', y') lines)) = doc_ops doc' @ concat blocks"
        "paged_log H y' lines blocks"
    by blast
  let ?block = "(if y > H - 20 then [AddPage] else []) @ body"
  have "doc_ops doc' = doc_ops doc @ ?block"
    using b(1) d by (simp add: addPage_def)
  then have "doc_ops (fst (foldl (export_line tw H 7) (doc, y) (line # lines)))
             = doc_ops doc @ concat (?block # blocks)"
    using st ih(1) by simp
  moreover have "paged_log H y (line # lines) (?block # blocks)"
  proof (cases "y > H - 20")
    case True
    with b(2,3) d ih(2) assms show ?thesis by simp
  next
    case False
    with b(2,3) d ih(2) show ?thesis by simp
  qed
  ultimately show ?case by blast
qed

section \<open>C1: emphasis markers in headings\<close>

text \<open>
  C1. For a line classified as Heading1 or Heading2, the heading text in every renderer's
  output is the text after the heading prefix with the \<open>**...**\<close> and \<open>*...*\<close> pairs
  stripped. The PDF exporter does so; the DOCX exporter does not: for the line
  \<open># **Title**\<close> its heading paragraph has the text \<open>**Title**\<close>, where the PDF
  exporter has \<open>Title\<close>.
\<close>

theorem docx_heading_keeps_markers:
  "parseMarkdownToDocx ''# **Title**''
     = [\<lparr>p_text = Some ''**Title**'', p_heading = Some HEADING_1, p_children = None\<rparr>]
   \<and> pdf_parseMarkdown ''# **Title**'' = [\<lparr>line_type = ''h1'', line_text = ''Title''\<rparr>]"
proof
  show "parseMarkdownToDocx ''# **Title**''
     = [\<lparr>p_text = Some ''**Title**'', p_heading = Some HEADING_1, p_children = None\<rparr>]"
    by code_simp
  show "pdf_parseMarkdown ''# **Title**'' = [\<lparr>line_type = ''h1'', line_text = ''Title''\<rparr>]"
    by code_simp
qed

section \<open>C2: the page break\<close>

text \<open>
  C2 (amended). The exporter checks for a page break once for every logical line, before
  the line is drawn, and nowhere else. For every text measure and every page height of at
  least 40, the operations of a document are one block for every line of the parsed
  document, followed by the save. When the cursor exceeds the page height minus 20 before
  a line, the block starts with exactly one new page and the line is drawn from the
  cursor 20; otherwise there is no new page and the line is drawn from the cursor as it
  is. So every line starts at a cursor of at most the page height minus 20: a heading
  draws its text exactly there, and a paragraph draws its words in rows that start there,
  each word on the current row or at the left margin of the next row, 7 lower, without
  any check. Only words on wrapped rows can therefore lie below the limit.
\<close>

theorem page_check_per_line:
  "40 \<le> pageHeight \<Longrightarrow>
     \<exists>blocks. doc_ops (pdf_export tw pageHeight content) = concat blocks @ [Save ''document.pdf'']
            \<and> paged_log pageHeight 20 (pdf_parseMarkdown content) blocks"
proof -
  assume h: "40 \<le> pageHeight"
  obtain doc y where
    st: "foldl (export_line tw pageHeight 7) (new_jsPDF, 20) (pdf_parseMarkdown content) = (doc, y)"
    by (cases "foldl (export_line tw pageHeight 7) (new_jsPDF, 20) (pdf_parseMarkdown content)")
  from export_lines_paged [OF h, of tw new_jsPDF 20 "pdf_parseMarkdown content"]
  obtain blocks where
    b: "doc_ops (fst (foldl (export_line tw pageHeight 7) (new_jsPDF, 20) (pdf_parseMarkdown content)))
          = doc_ops new_jsPDF @ concat blocks"
       "paged_log pageHeight 20 (pdf_parseMarkdown content) blocks"
    by blast
  have "doc_ops (pdf_export tw pageHeight content) = doc_ops doc @ [Save ''document.pdf'']"
    using st by (simp add: pdf_export_def Let_def)
  also have "doc_ops doc = concat blocks" using b(1) st by (simp add: new_jsPDF_def)
  finally show ?thesis using b(2) by blast
qed

text \<open>
  The theorem at a page height of 60 and a document of three headings: the third heading
  finds the cursor at 48, beyond the limit of 40, and is drawn on a new page at 20.
\<close>

theorem page_check_per_line_witness:
  "(40::rat) \<le> 60
   \<and> (\<exists>blocks. doc_ops (pdf_export two_per_char 60 (''# a'' @ [CHR 0x0A] @ ''# b'' @ [CHR 0x0A] @ ''# c''))
                  = concat blocks @ [Save ''document.pdf'']
              \<and> paged_log 60 20
                    (pdf_parseMarkdown (''# a'' @ [CHR 0x0A] @ ''# b'' @ [CHR 0x0A] @ ''# c'')) blocks)
   \<and> doc_ops (pdf_export two_per_char 60 (''# a'' @ [CHR 0x0A] @ ''# b'' @ [CHR 0x0A] @ ''# c''))
       = [Text ''a'' 20 20, Text ''b'' 20 34, AddPage, Text ''c'' 20 20, Save ''document.pdf'']
   \<and> paged_log 60 20 (pdf_parseMarkdown (''# a'' @ [CHR 0x0A] @ ''# b'' @ [CHR 0x0A] @ ''# c''))
       [[Text ''a'' 20 20], [Text ''b'' 20 34], [AddPage, Text ''c'' 20 20]]"
proof (intro conjI)
  show "(40::rat) \<le> 60" by simp
  show "\<exists>blocks. doc_ops (pdf_export two_per_char 60 (''# a'' @ [CHR 0x0A] @ ''# b'' @ [CHR 0x0A] @ ''# c''))
                  = concat blocks @ [Save ''document.pdf'']
              \<and> paged_log 60 20
                    (pdf_parseMarkdown (''# a'' @ [CHR 0x0A] @ ''# b'' @ [CHR 0x0A] @ ''# c'')) blocks"
    using page_check_per_line [of 60 two_per_char "''# a'' @ [CHR 0x0A] @ ''# b'' @ [CHR 0x0A] @ ''# c''"]
    by simp
  show "doc_ops (pdf_export two_per_char 60 (''# a'' @ [CHR 0x0A] @ ''# b'' @ [CHR 0x0A] @ ''# c''))
       = [Text ''a'' 20 20, Text ''b'' 20 34, AddPage, Text ''c'' 20 20, Save ''document.pdf'']"
    by code_simp
  show "paged_log 60 20 (pdf_parseMarkdown (''# a'' @ [CHR 0x0A] @ ''# b'' @ [CHR 0x0A] @ ''# c''))
       [[Text ''a'' 20 20], [Text ''b'' 20 34], [AddPage, Text ''c'' 20 20]]"
    by code_simp
qed

text \<open>
  C2 as stated fails for a word on a wrapped row. With a page height of 297 and eighteen
  first-level headings before it, a paragraph starts at 272, which is within the limit of
  277; its second word does not fit the row and is drawn at 279, on the same page.
\<close>

theorem wrapped_row_counterexample:
  "Text ''bbbbbbbbbbbbbbbbbbbbbbbbbbbbbbbbbbbbbbbbbbbbb'' 20 279
     \<in> set (doc_ops (pdf_export two_per_char 297
         (concat (replicate 18 (''# a'' @ [CHR 0x0A]))
          @ ''aaaaaaaaaaaaaaaaaaaaaaaaaaaaaaaaaaaaaaaaaaaaa bbbbbbbbbbbbbbbbbbbbbbbbbbbbbbbbbbbbbbbbbbbbb'')))
   \<and> AddPage
     \<notin> set (doc_ops (pdf_export two_per_char 297
         (concat (replicate 18 (''# a'' @ [CHR 0x0A]))
          @ ''aaaaaaaaaaaaaaaaaaaaaaaaaaaaaaaaaaaaaaaaaaaaa bbbbbbbbbbbbbbbbbbbbbbbbbbbbbbbbbbbbbbbbbbbbb'')))
   \<and> (279::rat) > 297 - 20"
proof (intro conjI)
  show "Text ''bbbbbbbbbbbbbbbbbbbbbbbbbbbbbbbbbbbbbbbbbbbbb'' 20 279
     \<in> set (doc_ops (pdf_export two_per_char 297
         (concat (replicate 18 (''# a'' @ [CHR 0x0A]))
          @ ''aaaaaaaaaaaaaaaaaaaaaaaaaaaaaaaaaaaaaaaaaaaaa bbbbbbbbbbbbbbbbbbbbbbbbbbbbbbbbbbbbbbbbbbbbb'')))"
    by code_simp
  show "AddPage
     \<notin> set (doc_ops (pdf_export two_per_char 297
         (concat (replicate 18 (''# a'' @ [CHR 0x0A]))
          @ ''aaaaaaaaaaaaaaaaaaaaaaaaaaaaaaaaaaaaaaaaaaaaa bbbbbbbbbbbbbbbbbbbbbbbbbbbbbbbbbbbbbbbbbbbbb'')))"
    by code_simp
  show "(279::rat) > 297 - 20" by simp
qed

section \<open>C3: the segments and the input\<close>

text \<open>
  C3, as amended. For every input string with flat, balanced markers, that is every
  string made of unstyled text without asterisks and of spans \<open>**t**\<close> and \<open>*t*\<close>
  whose text \<open>t\<close> is not empty and has no asterisk and no line terminator, where an
  italic span is followed by unstyled text or by the end of the input, the inline parser
  of both exporters returns exactly these pieces in order, each with its emphasis and
  each maximal run of unstyled text as one segment; so the concatenation of the segment
  texts is the input with all marker characters removed, nothing else is dropped,
  duplicated or reordered, and the segments do not overlap or nest. For every input
  string at all, putting \<open>**\<close> around the text of every bold segment and \<open>*\<close> around
  the text of every italic segment and concatenating gives the input again: the parser
  drops nothing but the delimiters of the spans it emits.
\<close>

theorem segments_reconstruct_input:
  "(flat_pieces ps \<longrightarrow>
      map segment_pair (pdf_parseInlineFormatting (source_of ps)) = ps
      \<and> concat (map seg_text (pdf_parseInlineFormatting (source_of ps)))
          = remove_markers (source_of ps))
   \<and> (flat_pieces ps \<and> ps \<noteq> [] \<longrightarrow>
      map run_pair (docx_parseInlineFormatting (source_of ps)) = ps
      \<and> concat (map run_text (docx_parseInlineFormatting (source_of ps)))
          = remove_markers (source_of ps))
   \<and> concat (map (unparse_pair \<circ> segment_pair) (pdf_parseInlineFormatting s)) = s
   \<and> concat (map (unparse_pair \<circ> run_pair) (docx_parseInlineFormatting s)) = s"
proof -
  have docx_pdf: "map run_pair (docx_parseInlineFormatting u)
                  = map segment_pair (pdf_parseInlineFormatting u)" if "u \<noteq> []" for u
  proof -
    have eq: "map run_pair (docx_parse_loop [] u) = map segment_pair (pdf_parse_loop [] u)"
      using loops_agree [of "[]" "[]" u] by simp
    moreover have "pdf_parse_loop [] u \<noteq> []" using that by (rule pdf_parse_loop_nonempty)
    ultimately have "docx_parse_loop [] u \<noteq> []" by auto
    then show ?thesis
      using eq by (simp add: docx_parseInlineFormatting_def pdf_parseInlineFormatting_def Let_def)
  qed
  have a: "map segment_pair (pdf_parseInlineFormatting (source_of ps)) = ps
      \<and> concat (map seg_text (pdf_parseInlineFormatting (source_of ps)))
          = remove_markers (source_of ps)" if flat: "flat_pieces ps"
  proof
    show p: "map segment_pair (pdf_parseInlineFormatting (source_of ps)) = ps"
      using flat by (rule parse_flat_pieces)
    have "concat (map seg_text (pdf_parseInlineFormatting (source_of ps)))
          = concat (map fst (map segment_pair (pdf_parseInlineFormatting (source_of ps))))"
      by (simp add: segment_pair_def comp_def)
    also have "\<dots> = concat (map fst ps)" by (simp only: p)
    also have "\<dots> = remove_markers (source_of ps)"
      using remove_markers_flat [OF flat] by simp
    finally show "concat (map seg_text (pdf_parseInlineFormatting (source_of ps)))
          = remove_markers (source_of ps)" .
  qed
  have b: "map run_pair (docx_parseInlineFormatting (source_of ps)) = ps
      \<and> concat (map run_text (docx_parseInlineFormatting (source_of ps)))
          = remove_markers (source_of ps)" if flat: "flat_pieces ps" and ne: "ps \<noteq> []"
  proof
    have "source_of ps \<noteq> []" using flat ne by (rule source_of_flat_nonempty)
    then show p: "map run_pair (docx_parseInlineFormatting (source_of ps)) = ps"
      using docx_pdf parse_flat_pieces [OF flat] by simp
    have "concat (map run_text (docx_parseInlineFormatting (source_of ps)))
          = concat (map fst (map run_pair (docx_parseInlineFormatting (source_of ps))))"
      by (simp add: run_pair_def comp_def)
    also have "\<dots> = concat (map fst ps)" by (simp only: p)
    also have "\<dots> = remove_markers (source_of ps)"
      using remove_markers_flat [OF flat] by simp
    finally show "concat (map run_text (docx_parseInlineFormatting (source_of ps)))
          = remove_markers (source_of ps)" .
  qed
  have c: "concat (map (unparse_pair \<circ> segment_pair) (pdf_parseInlineFormatting s)) = s"
    by (simp add: pdf_parseInlineFormatting_def unparse_pdf_parse_loop)
  have d: "concat (map (unparse_pair \<circ> run_pair) (docx_parseInlineFormatting s)) = s"
  proof (cases "s = []")
    case True
    then show ?thesis
      by (simp add: docx_parseInlineFormatting_def docx_parse_loop_Nil unparse_pair_def
          run_pair_def plainRun_def)
  next
    case False
    from docx_pdf [OF False]
    have "map unparse_pair (map run_pair (docx_parseInlineFormatting s))
          = map unparse_pair (map segment_pair (pdf_parseInlineFormatting s))"
      by simp
    then show ?thesis using c by (simp add: comp_def)
  qed
  from a b c d show ?thesis by blast
qed

theorem segments_reconstruct_input_witness:
  "source_of [(''a'', Bold), ('' and '', NoEmphasis), (''b'', Italic)] = ''**a** and *b*''
   \<and> map segment_pair (pdf_parseInlineFormatting ''**a** and *b*'')
       = [(''a'', Bold), ('' and '', NoEmphasis), (''b'', Italic)]
   \<and> map run_pair (docx_parseInlineFormatting ''**a** and *b*'')
       = [(''a'', Bold), ('' and '', NoEmphasis), (''b'', Italic)]
   \<and> concat (map seg_text (pdf_parseInlineFormatting ''**a** and *b*'')) = ''a and b''
   \<and> remove_markers ''**a** and *b*'' = ''a and b''"
proof -
  let ?ps = "[(''a'', Bold), ('' and '', NoEmphasis), (''b'', Italic)]"
  have f: "flat_pieces ?ps" by (simp add: isLineTerminator_def)
  have n: "?ps \<noteq> []" by simp
  have s: "source_of ?ps = ''**a** and *b*''" by (simp add: source_of_def unparse_pair_def)
  have r: "remove_markers ''**a** and *b*'' = ''a and b''" by (simp add: remove_markers_def)
  from f n segments_reconstruct_input [of ?ps "[]"] show ?thesis
    unfolding s r by simp
qed

text \<open>
  C3 as stated fails on balanced markers that are not flat. An italic span nested in a
  bold span stays in the text of the bold segment. After an italic span that is directly
  followed by a bold or an italic span, asterisks stay in the segment texts. A span
  with a carriage return in its text, or with an empty text, is not matched at all.
\<close>

theorem reconstruction_counterexample:
  "pdf_parseInlineFormatting ''**a *b* c**'' = [boldSeg ''a *b* c'']
   \<and> remove_markers ''**a *b* c**'' = ''a b c''
   \<and> pdf_parseInlineFormatting ''*a***b**'' = [plainSeg ''*a'', boldSeg ''*b'']
   \<and> remove_markers ''*a***b**'' = ''ab''
   \<and> pdf_parseInlineFormatting ''*a**b*'' = [italicSeg ''a**b'']
   \<and> remove_markers ''*a**b*'' = ''ab''
   \<and> pdf_parseInlineFormatting [CHR ''*'', CHR ''*'', CHR ''a'', CHR 0x0D, CHR ''b'', CHR ''*'', CHR ''*'']
       = [plainSeg [CHR ''*'', CHR ''*'', CHR ''a'', CHR 0x0D, CHR ''b'', CHR ''*'', CHR ''*'']]
   \<and> remove_markers [CHR ''*'', CHR ''*'', CHR ''a'', CHR 0x0D, CHR ''b'', CHR ''*'', CHR ''*'']
       = [CHR ''a'', CHR 0x0D, CHR ''b'']
   \<and> pdf_parseInlineFormatting ''****'' = [plainSeg ''****'']
   \<and> remove_markers ''****'' = []"
proof (intro conjI)
  show "pdf_parseInlineFormatting ''**a *b* c**'' = [boldSeg ''a *b* c'']" by code_simp
  show "pdf_parseInlineFormatting ''*a***b**'' = [plainSeg ''*a'', boldSeg ''*b'']" by code_simp
  show "pdf_parseInlineFormatting ''*a**b*'' = [italicSeg ''a**b'']" by code_simp
  show "pdf_parseInlineFormatting [CHR ''*'', CHR ''*'', CHR ''a'', CHR 0x0D, CHR ''b'', CHR ''*'', CHR ''*'']
       = [plainSeg [CHR ''*'', CHR ''*'', CHR ''a'', CHR 0x0D, CHR ''b'', CHR ''*'', CHR ''*'']]"
    by code_simp
  show "pdf_parseInlineFormatting ''****'' = [plainSeg ''****'']" by code_simp
qed (simp_all add: remove_markers_def)

section \<open>C4: the algorithm of the inline parser\<close>



section \<open>C5: the line parser\<close>

text \<open>
  C5, as amended. For every input string, both line parsers split the input at the line
  feeds, trim each line and produce one element per line, in order and with no error.
  The kind of each element follows the precedence: empty gives Empty; a trimmed line
  starting with \<open># \<close> gives Heading1; one starting with \<open>## \<close> gives Heading2;
  anything else gives Paragraph. An Empty element has the empty text. A Paragraph element
  has the trimmed line as its text, in the DOCX exporter as runs that read as the trimmed
  line. In the PDF exporter the text of a heading is the remainder after the prefix of
  two or three characters in which every pair of \<open>**\<close> and then every pair of \<open>*\<close>,
  taken from left to right and never across a line terminator, is replaced by the text
  between its delimiters; it is the remainder itself when that has no asterisk. So
  \<open># Title\<close> gives Heading1 \<open>Title\<close>, \<open>## Sub\<close> gives Heading2 \<open>Sub\<close>, and
  \<open>### X\<close> gives a Paragraph with text \<open>### X\<close>.
\<close>

theorem line_parser_classification:
  "map (\<lambda>l. (pdf_line_kind l, line_text l)) (pdf_parseMarkdown content)
     = map (\<lambda>line. (classify_line (trim line), pdf_line_text (trim line)))
         (split_char (CHR 0x0A) content)
   \<and> list_all2 docx_node_for (split_char (CHR 0x0A) content) (parseMarkdownToDocx content)
   \<and> (CHR ''*'' \<notin> set t \<longrightarrow> strip_pairs ''*'' (strip_pairs ''**'' t) = t)
   \<and> pdf_parseMarkdown ''# Title'' = [\<lparr>line_type = ''h1'', line_text = ''Title''\<rparr>]
   \<and> pdf_parseMarkdown ''## Sub'' = [\<lparr>line_type = ''h2'', line_text = ''Sub''\<rparr>]
   \<and> pdf_parseMarkdown ''### X'' = [\<lparr>line_type = ''paragraph'', line_text = ''### X''\<rparr>]
   \<and> pdf_parseMarkdown ''# **a*b**'' = [\<lparr>line_type = ''h1'', line_text = ''a*b''\<rparr>]
   \<and> strip_pairs ''*'' (strip_pairs ''**'' ''**a*b** *c*'') = ''ab c*''"
proof (intro conjI impI)
  show "map (\<lambda>l. (pdf_line_kind l, line_text l)) (pdf_parseMarkdown content)
     = map (\<lambda>line. (classify_line (trim line), pdf_line_text (trim line)))
         (split_char (CHR 0x0A) content)"
    using pdf_parse_lines_view [of "[]"] by (simp add: pdf_parseMarkdown_def Let_def)
  show "list_all2 docx_node_for (split_char (CHR 0x0A) content) (parseMarkdownToDocx content)"
    using docx_parse_lines_nodes [of "[]" "[]"] by (simp add: parseMarkdownToDocx_def Let_def)
  show "strip_pairs ''*'' (strip_pairs ''**'' t) = t" if "CHR ''*'' \<notin> set t"
    using that index_of_no_marker [of "''**''" t] index_of_no_marker [of "''*''" t]
    by (simp add: strip_pairs_None)
  show "pdf_parseMarkdown ''# Title'' = [\<lparr>line_type = ''h1'', line_text = ''Title''\<rparr>]"
    by code_simp
  show "pdf_parseMarkdown ''## Sub'' = [\<lparr>line_type = ''h2'', line_text = ''Sub''\<rparr>]"
    by code_simp
  show "pdf_parseMarkdown ''### X'' = [\<lparr>line_type = ''paragraph'', line_text = ''### X''\<rparr>]"
    by code_simp
  show "pdf_parseMarkdown ''# **a*b**'' = [\<lparr>line_type = ''h1'', line_text = ''a*b''\<rparr>]"
    by code_simp
  show "strip_pairs ''*'' (strip_pairs ''**'' ''**a*b** *c*'') = ''ab c*''"
    by code_simp
qed

theorem line_parser_classification_witness:
  "strip_pairs ''*'' (strip_pairs ''**'' ''Title'') = ''Title''
   \<and> map (\<lambda>l. (pdf_line_kind l, line_text l)) (pdf_parseMarkdown (''  # *x*'' @ [CHR 0x0A] @ ''y''))
     = [(Heading1, ''x''), (Paragraph, ''y'')]"
proof -
  have a: "CHR ''*'' \<notin> set ''Title''" by simp
  have s: "split_char (CHR 0x0A) (''  # *x*'' @ [CHR 0x0A] @ ''y'') = [''  # *x*'', ''y'']"
    by simp
  have t: "trim ''  # *x*'' = ''# *x*''" "trim ''y'' = ''y''"
    by (simp_all add: trim_def isWhiteSpace_def)
  have c: "classify_line ''# *x*'' = Heading1" "classify_line ''y'' = Paragraph"
    by (simp_all add: classify_line_def)
  have r: "strip_pairs ''*'' (strip_pairs ''**'' ''*x*'') = ''x''" by code_simp
  have p: "pdf_line_text ''# *x*'' = ''x''" "pdf_line_text ''y'' = ''y''"
    using r by (simp_all add: pdf_line_text_def c)
  from a line_parser_classification [of "''  # *x*'' @ [CHR 0x0A] @ ''y''" "''Title''"]
  show ?thesis by (simp add: s t c p)
qed

text \<open>
  C5 as stated fails in the PDF exporter's parser: the text of a heading is not the
  remainder after the prefix when that remainder has emphasis pairs.
\<close>

theorem heading_text_counterexample:
  "pdf_parseMarkdown ''# **T**'' = [\<lparr>line_type = ''h1'', line_text = ''T''\<rparr>]
   \<and> drop 2 (trim ''# **T**'') = ''**T**''"
proof
  show "pdf_parseMarkdown ''# **T**'' = [\<lparr>line_type = ''h1'', line_text = ''T''\<rparr>]"
    by code_simp
  show "drop 2 (trim ''# **T**'') = ''**T**''"
    by (simp add: trim_def isWhiteSpace_def)
qed

section \<open>C6: the plain-text renderer and the line pipeline\<close>

text \<open>
  C6. The output of the plain-text renderer is the result of the line pipeline: the lines
  are trimmed before they are classified, so a heading line with leading whitespace has
  its prefix stripped. \<open>TXTExporter.stripMarkdown\<close> does not do so: it tries the heading
  pattern at the very start of a line only, and for the document of the two lines \<open>a\<close>
  and \<open>  # T\<close> it returns the document unchanged, the number sign and the indentation
  included, where the pipeline gives the lines \<open>a\<close> and \<open>T\<close>. The PDF and the DOCX
  exporter trim the line and take it as the first-level heading \<open>T\<close>.
\<close>

theorem txt_keeps_indented_heading_marker:
  "stripMarkdown (''a'' @ [CHR 0x0A] @ ''  # T'') = ''a'' @ [CHR 0x0A] @ ''  # T''
   \<and> pdf_parseMarkdown (''a'' @ [CHR 0x0A] @ ''  # T'')
       = [\<lparr>line_type = ''paragraph'', line_text = ''a''\<rparr>,
          \<lparr>line_type = ''h1'', line_text = ''T''\<rparr>]
   \<and> parseMarkdownToDocx (''a'' @ [CHR 0x0A] @ ''  # T'')
       = [\<lparr>p_text = None, p_heading = None, p_children = Some [plainRun ''a'']\<rparr>,
          \<lparr>p_text = Some ''T'', p_heading = Some HEADING_1, p_children = None\<rparr>]"
proof (intro conjI)
  show "stripMarkdown (''a'' @ [CHR 0x0A] @ ''  # T'') = ''a'' @ [CHR 0x0A] @ ''  # T''"
    by code_simp
  show "pdf_parseMarkdown (''a'' @ [CHR 0x0A] @ ''  # T'')
       = [\<lparr>line_type = ''paragraph'', line_text = ''a''\<rparr>,
          \<lparr>line_type = ''h1'', line_text = ''T''\<rparr>]"
    by code_simp
  show "parseMarkdownToDocx (''a'' @ [CHR 0x0A] @ ''  # T'')
       = [\<lparr>p_text = None, p_heading = None, p_children = Some [plainRun ''a'']\<rparr>,
          \<lparr>p_text = Some ''T'', p_heading = Some HEADING_1, p_children = None\<rparr>]"
    by code_simp
qed

section \<open>C7: the exporter selection\<close>

text \<open>
  C7. For every format name, \<open>getFactory\<close> matches the name case-insensitively against
  txt, pdf and docx and returns the corresponding factory with no warning; for any other
  name (for example rtf) it returns the plain-text factory and writes one warning. It
  always returns a factory: an unrecognised name does not abort the export.
\<close>

theorem getFactory_selection:
  "getFactory format =
     (if matches_ignoring_case format ''txt'' then (TXTExporterFactory, [])
      else if matches_ignoring_case format ''pdf'' then (PDFExporterFactory, [])
      else if matches_ignoring_case format ''docx'' then (DOCXExporterFactory, [])
      else (TXTExporterFactory, [''Unknown format: '' @ format @ ''. Defaulting to TXT.'']))
   \<and> getFactory ''rtf'' = (TXTExporterFactory, [''Unknown format: rtf. Defaulting to TXT.''])"
proof
  show "getFactory format =
     (if matches_ignoring_case format ''txt'' then (TXTExporterFactory, [])
      else if matches_ignoring_case format ''pdf'' then (PDFExporterFactory, [])
      else if matches_ignoring_case format ''docx'' then (DOCXExporterFactory, [])
      else (TXTExporterFactory, [''Unknown format: '' @ format @ ''. Defaulting to TXT.'']))"
    using toLowerCase_txt [of format] toLowerCase_pdf [of format] toLowerCase_docx [of format]
    by (simp add: getFactory_def Let_def)
  show "getFactory ''rtf'' = (TXTExporterFactory, [''Unknown format: rtf. Defaulting to TXT.''])"
    by code_simp
qed

theorem getFactory_selection_witness:
  "matches_ignoring_case ''DocX'' ''docx''
   \<and> getFactory ''DocX'' = (DOCXExporterFactory, [])"
proof -
  have m: "matches_ignoring_case ''DocX'' ''docx''"
    by (simp add: matches_ignoring_case_def same_letter_def)
  have n: "\<not> matches_ignoring_case ''DocX'' ''txt''" "\<not> matches_ignoring_case ''DocX'' ''pdf''"
    by (simp_all add: matches_ignoring_case_def same_letter_def)
  from m n getFactory_selection [of "''DocX''"] show ?thesis by simp
qed

section \<open>C8: malformed markers\<close>

text \<open>
  C8, as amended. The inline parser is total and raises no error (the loop terminates on
  every input and has no failing branch). No marker character is lost: every asterisk of
  the input is one of the four delimiters of an emitted bold segment, one of the two
  delimiters of an emitted italic segment, or stands verbatim in the text of a segment.
  A non-empty string where neither the bold nor the italic pattern matches, in particular
  any non-empty string with fewer than two asterisks such as one with a single trailing
  \<open>*\<close>, yields exactly one unstyled segment equal to the input. The empty string
  yields no segment in the PDF exporter and one empty run in the DOCX exporter.
\<close>

theorem malformed_markers_literal:
  "count_markers s
     = count_markers (concat (map seg_text (pdf_parseInlineFormatting s)))
       + 4 * length (filter (\<lambda>g. snd (segment_pair g) = Bold) (pdf_parseInlineFormatting s))
       + 2 * length (filter (\<lambda>g. snd (segment_pair g) = Italic) (pdf_parseInlineFormatting s))
   \<and> (s \<noteq> [] \<and> boldMatch s = None \<and> italicMatch s = None \<longrightarrow>
        pdf_parseInlineFormatting s = [plainSeg s])
   \<and> (count_markers s < 2 \<longrightarrow> boldMatch s = None \<and> italicMatch s = None)
   \<and> (CHR ''*'' \<notin> set t \<longrightarrow> pdf_parseInlineFormatting (t @ ''*'') = [plainSeg (t @ ''*'')])
   \<and> pdf_parseInlineFormatting [] = []
   \<and> docx_parseInlineFormatting [] = [plainRun []]"
proof (intro conjI impI)
  have "concat (map (unparse_pair \<circ> segment_pair) (pdf_parseInlineFormatting s)) = s"
    by (simp add: pdf_parseInlineFormatting_def unparse_pdf_parse_loop)
  then show "count_markers s
     = count_markers (concat (map seg_text (pdf_parseInlineFormatting s)))
       + 4 * length (filter (\<lambda>g. snd (segment_pair g) = Bold) (pdf_parseInlineFormatting s))
       + 2 * length (filter (\<lambda>g. snd (segment_pair g) = Italic) (pdf_parseInlineFormatting s))"
    using count_markers_unparse [of "pdf_parseInlineFormatting s"] by simp
next
  assume "s \<noteq> [] \<and> boldMatch s = None \<and> italicMatch s = None"
  then show "pdf_parseInlineFormatting s = [plainSeg s]"
    using no_match_single_segment by blast
next
  assume "count_markers s < 2"
  then show "boldMatch s = None" and "italicMatch s = None"
    using few_markers_no_match by blast+
next
  assume "CHR ''*'' \<notin> set t"
  then have "count_markers t = 0"
    by (auto simp: count_markers_def filter_empty_conv)
  then have "count_markers (t @ ''*'') < 2" by simp
  then show "pdf_parseInlineFormatting (t @ ''*'') = [plainSeg (t @ ''*'')]"
    using few_markers_no_match [of "t @ ''*''"] no_match_single_segment [of "t @ ''*''"]
    by simp
next
  show "pdf_parseInlineFormatting [] = []"
    by (simp add: pdf_parseInlineFormatting_def pdf_parse_loop_Nil)
  show "docx_parseInlineFormatting [] = [plainRun []]"
    by (simp add: docx_parseInlineFormatting_def docx_parse_loop_Nil)
qed

theorem malformed_markers_literal_witness:
  "pdf_parseInlineFormatting ''abc*'' = [plainSeg ''abc*'']
   \<and> count_markers ''abc*'' = 1
   \<and> boldMatch ''abc*'' = None \<and> italicMatch ''abc*'' = None"
proof -
  have a: "CHR ''*'' \<notin> set ''abc''" by simp
  have c: "count_markers ''abc*'' = 1" by simp
  then have d: "count_markers ''abc*'' < 2" by simp
  from a c d malformed_markers_literal [of "''abc*''" "''abc''"] show ?thesis by simp
qed

text \<open>
  C8 as stated fails: an unmatched asterisk inside a bold span ends up in the text of the
  bold segment, and the output has no unstyled segment at all.
\<close>

theorem malformed_markers_counterexample:
  "pdf_parseInlineFormatting ''**a*b**'' = [boldSeg ''a*b'']"
  by code_simp

section \<open>C9: a DOCX paragraph has at least one run\<close>

text \<open>
  C9. In the DOCX exporter every paragraph node built from a Paragraph line, that is
  every node with \<open>children\<close>, has at least one run: the inline parser never returns
  an empty list, and when its loop yields no run (the empty string) it supplies a single
  run with empty text.
\<close>

theorem docx_paragraph_has_run:
  "(\<forall>p \<in> set (parseMarkdownToDocx content). \<forall>runs. p_children p = Some runs \<longrightarrow> runs \<noteq> [])
   \<and> docx_parseInlineFormatting s \<noteq> []
   \<and> (docx_parse_loop [] s = [] \<longrightarrow> docx_parseInlineFormatting s = [plainRun []])"
proof (intro conjI)
  show ne: "\<And>s. docx_parseInlineFormatting s \<noteq> []"
    by (simp add: docx_parseInlineFormatting_def Let_def)
  show "docx_parse_loop [] s = [] \<longrightarrow> docx_parseInlineFormatting s = [plainRun []]"
    by (simp add: docx_parseInlineFormatting_def)
  have step: "\<And>ps l. (\<forall>p \<in> set ps. \<forall>runs. p_children p = Some runs \<longrightarrow> runs \<noteq> []) \<Longrightarrow>
      (\<forall>p \<in> set (docx_parse_line ps l). \<forall>runs. p_children p = Some runs \<longrightarrow> runs \<noteq> [])"
    using ne by (auto simp: docx_parse_line_def Let_def)
  have "\<And>ps. (\<forall>p \<in> set ps. \<forall>runs. p_children p = Some runs \<longrightarrow> runs \<noteq> []) \<Longrightarrow>
      (\<forall>p \<in> set (foldl docx_parse_line ps ls). \<forall>runs. p_children p = Some runs \<longrightarrow> runs \<noteq> [])"
    for ls
  proof (induction ls)
    case Nil
    then show ?case by simp
  next
    case (Cons l ls)
    from Cons.IH [OF step [OF Cons.prems, of l]] show ?case by simp
  qed
  from this [of "[]"]
  show "\<forall>p \<in> set (parseMarkdownToDocx content). \<forall>runs. p_children p = Some runs \<longrightarrow> runs \<noteq> []"
    by (simp add: parseMarkdownToDocx_def Let_def)
qed

theorem docx_paragraph_has_run_witness:
  "parseMarkdownToDocx ''a **b**''
     = [\<lparr>p_text = None, p_heading = None, p_children = Some [plainRun ''a '', boldRun ''b'']\<rparr>]
   \<and> [plainRun ''a '', boldRun ''b''] \<noteq> []
   \<and> docx_parse_loop [] [] = []
   \<and> docx_parseInlineFormatting [] = [plainRun []]"
proof -
  have p: "parseMarkdownToDocx ''a **b**''
     = [\<lparr>p_text = None, p_heading = None, p_children = Some [plainRun ''a '', boldRun ''b'']\<rparr>]"
    by code_simp
  have l: "docx_parse_loop [] [] = []" by (rule docx_parse_loop_Nil)
  from p l docx_paragraph_has_run [of "''a **b**''" "[]"] show ?thesis by simp
qed

section \<open>C10: the two inline parsers agree\<close>

text \<open>
  C10. For every non-empty input string, \<open>PDFExporter.parseInlineFormatting\<close> and
  \<open>DOCXExporter.parseInlineFormatting\<close> produce the same ordered sequence of
  (text, emphasis) pairs: a PDF segment flagged bold or italic corresponds to a DOCX run
  flagged bold or italics, an unflagged segment to an unflagged run.
\<close>

theorem inline_parsers_equivalent:
  "s \<noteq> [] \<Longrightarrow>
   map run_pair (docx_parseInlineFormatting s) = map segment_pair (pdf_parseInlineFormatting s)"
proof -
  assume ne: "s \<noteq> []"
  have eq: "map run_pair (docx_parse_loop [] s) = map segment_pair (pdf_parse_loop [] s)"
    using loops_agree [of "[]" "[]" s] by simp
  moreover have "pdf_parse_loop [] s \<noteq> []" using ne by (rule pdf_parse_loop_nonempty)
  ultimately have "docx_parse_loop [] s \<noteq> []" by auto
  then show ?thesis
    using eq by (simp add: docx_parseInlineFormatting_def pdf_parseInlineFormatting_def Let_def)
qed

theorem inline_parsers_equivalent_witness:
  "''**a** and *b*'' \<noteq> []
   \<and> map run_pair (docx_parseInlineFormatting ''**a** and *b*'')
     = [(''a'', Bold), ('' and '', NoEmphasis), (''b'', Italic)]
   \<and> map segment_pair (pdf_parseInlineFormatting ''**a** and *b*'')
     = [(''a'', Bold), ('' and '', NoEmphasis), (''b'', Italic)]"
proof -
  have ne: "''**a** and *b*'' \<noteq> []" by simp
  have "map segment_pair (pdf_parseInlineFormatting ''**a** and *b*'')
     = [(''a'', Bold), ('' and '', NoEmphasis), (''b'', Italic)]"
    by code_simp
  with ne inline_parsers_equivalent [OF ne] show ?thesis by simp
qed

end
